theory Spec2Isabelle
  imports Main "HOL-Library.Word" "HOL-Library.Multiset"
begin

section \<open>The thread pool of ThreadPool.h as an interleaving state machine\<close>

text \<open>
  \<^verbatim>\<open>ThreadPool<ThreadCount>\<close> owns \<open>ThreadCount\<close> worker threads that run \<open>Task\<close>, a
  \<open>std::list<Job>\<close> queue, the atomics \<open>jobs_left\<close>, \<open>bailout\<close>, \<open>finished\<close>, three
  mutexes and two condition variables. Every access to shared data in the header is
  either an operation on an atomic or happens under a mutex, so an execution is an
  interleaving of the threads' individual actions. The model has one transition per
  such action: every thread has a program counter naming the source line it is about
  to execute, and \<open>step\<close> executes that line for the thread an event names.

  \<^item> A \<open>Job\<close> is \<open>std::function<void()>\<close>, opaque to the pool. \<open>Callable n\<close> is a callable
    handed in by a caller (\<open>n\<close> names it), \<open>NoOp\<close> is the lambda \<open>[]{}\<close> of line 86.
    Job bodies are assumed to return without throwing; invoking one is recorded in the
    log \<open>ran\<close>.
  \<^item> \<open>atomic_int\<close> is a 32-bit word read as a signed number (\<open>sint\<close>), the width of \<open>int\<close>
    on the usual platforms. The C++ standard defines \<open>++\<close> and \<open>--\<close> on an atomic signed
    integer in two's complement, with no undefined result: they wrap around.
    \<open>unsigned\<close> is a 32-bit word, and the conversion of \<open>queue.size()\<close> to it truncates.
  \<^item> A mutex is \<open>None\<close> when free and \<open>Some t\<close> when thread \<open>t\<close> owns it; \<open>lock\<close> is
    enabled only on a free mutex.
  \<^item> \<open>wait( lock, pred )\<close> is \<open>while( !pred() ) wait( lock )\<close>: the predicate is evaluated
    with the mutex held, and when it is false \<open>wait( lock )\<close> releases the mutex and
    blocks the thread in one action (\<open>NJ_blocked\<close>, \<open>WA_blocked\<close>). \<open>notify_one\<close>
    unblocks one blocked thread when there is one, \<open>notify_all\<close> all of them, a
    notification that finds no blocked thread is lost, and a blocked thread may wake
    up spuriously, as the C++ standard allows. An unblocked thread re-acquires the
    mutex and evaluates the predicate again.
  \<^item> Callers of the public member functions are the client threads; a call made from
    inside a job body is a client's call like any other.
  \<^item> \<open>submitted\<close>, \<open>dequeued\<close> and \<open>ran\<close> are history logs (every \<open>emplace_back\<close>, every
    \<open>pop_front\<close>, every job invocation, in order). The code does not read them.
\<close>

datatype job = Callable nat | NoOp

datatype tid = Worker nat | Client nat

type_synonym mutex = "tid option"

text \<open>Program counters of a worker thread: \<open>Task\<close> (lines 54-60) and \<open>next_job\<close>
  (lines 66-94), with \<open>JobsRemaining\<close> (lines 123-126) inlined in the wait predicate.\<close>

datatype wpc =
    T_while                 \<comment> \<open>55: \<open>while( !bailout )\<close>\<close>
  | NJ_lock_avail           \<comment> \<open>68: \<open>unique_lock<mutex> job_lock( job_available_mutex )\<close>\<close>
  | NJ_lock_queue           \<comment> \<open>69: \<open>queue_mutex.lock()\<close>\<close>
  | NJ_empty                \<comment> \<open>72: \<open>if( !queue.empty() )\<close>\<close>
  | NJ_front                \<comment> \<open>73 and 82: \<open>res = queue.front()\<close>\<close>
  | NJ_pop job              \<comment> \<open>74 and 83: \<open>queue.pop_front()\<close>\<close>
  | NJ_unlock_wait          \<comment> \<open>77: \<open>queue_mutex.unlock()\<close>\<close>
  | WP_lock                 \<comment> \<open>78, 124: the predicate calls \<open>JobsRemaining()\<close>: lock \<open>queue_mutex\<close>\<close>
  | WP_size                 \<comment> \<open>125: \<open>return queue.size()\<close>\<close>
  | WP_unlock "32 word"     \<comment> \<open>126: the guard releases \<open>queue_mutex\<close>\<close>
  | WP_or "32 word"         \<comment> \<open>78: \<open>(JobsRemaining()) || bailout\<close>\<close>
  | NJ_wait                 \<comment> \<open>78: the predicate was false: release \<open>job_available_mutex\<close> and block\<close>
  | NJ_blocked              \<comment> \<open>78: blocked on \<open>job_available_var\<close>, \<open>job_available_mutex\<close> released\<close>
  | NJ_woken                \<comment> \<open>78: unblocked, re-acquires \<open>job_available_mutex\<close>\<close>
  | NJ_relock_queue         \<comment> \<open>80: \<open>queue_mutex.lock()\<close>\<close>
  | NJ_bailout              \<comment> \<open>81: \<open>if( !bailout )\<close>\<close>
  | NJ_inject               \<comment> \<open>86: \<open>res = []{}\<close>\<close>
  | NJ_inc job              \<comment> \<open>87: \<open>++jobs_left\<close>\<close>
  | NJ_unlock_queue job     \<comment> \<open>90: \<open>queue_mutex.unlock()\<close>\<close>
  | NJ_unlock_avail job     \<comment> \<open>91: \<open>job_lock.unlock()\<close>\<close>
  | T_call job              \<comment> \<open>56: \<open>next_job()()\<close>, the call of the job returned\<close>
  | T_dec                   \<comment> \<open>57: \<open>--jobs_left\<close>\<close>
  | T_notify                \<comment> \<open>58: \<open>wait_var.notify_one()\<close>\<close>
  | T_exit                  \<comment> \<open>\<open>Task\<close> has returned: the thread is finished\<close>
  | W_undefined             \<comment> \<open>undefined behaviour: \<open>front\<close> or \<open>pop_front\<close> on an empty list\<close>

text \<open>Program counters of a client thread: \<open>AddJob\<close> (133-138), \<open>JobsRemaining\<close>
  (123-126), \<open>JoinAll\<close> (150-166) and \<open>WaitAll\<close> (173-179). The flag of the \<open>WA_\<close>
  counters says whether \<open>WaitAll\<close> was called from \<open>JoinAll\<close> (line 153) and returns
  there.\<close>

datatype cpc =
    Idle                    \<comment> \<open>outside the pool's member functions\<close>
  | Ret "32 word"           \<comment> \<open>outside, the last call returned this \<open>unsigned\<close>\<close>
  | AJ_lock job             \<comment> \<open>134: \<open>lock_guard<mutex> guard( queue_mutex )\<close>\<close>
  | AJ_emplace job          \<comment> \<open>135: \<open>queue.emplace_back( job )\<close>\<close>
  | AJ_inc                  \<comment> \<open>136: \<open>++jobs_left\<close>\<close>
  | AJ_notify               \<comment> \<open>137: \<open>job_available_var.notify_one()\<close>\<close>
  | AJ_unlock               \<comment> \<open>138: the guard releases \<open>queue_mutex\<close>\<close>
  | JR_lock                 \<comment> \<open>124: \<open>lock_guard<mutex> guard( queue_mutex )\<close>\<close>
  | JR_size                 \<comment> \<open>125: \<open>return queue.size()\<close>\<close>
  | JR_unlock "32 word"     \<comment> \<open>126: the guard releases \<open>queue_mutex\<close>\<close>
  | JA_finished bool        \<comment> \<open>151-152: \<open>if( !finished )\<close>, \<open>if( WaitForAll )\<close>\<close>
  | WA_check bool           \<comment> \<open>174: \<open>if( jobs_left > 0 )\<close>\<close>
  | WA_lock bool            \<comment> \<open>175: \<open>unique_lock<mutex> lk( wait_mutex )\<close>\<close>
  | WA_pred bool            \<comment> \<open>176: the predicate \<open>jobs_left == 0\<close>\<close>
  | WA_wait bool            \<comment> \<open>176: the predicate was false: release \<open>wait_mutex\<close> and block\<close>
  | WA_blocked bool         \<comment> \<open>176: blocked on \<open>wait_var\<close>, \<open>wait_mutex\<close> released\<close>
  | WA_woken bool           \<comment> \<open>176: unblocked, re-acquires \<open>wait_mutex\<close>\<close>
  | WA_unlock bool          \<comment> \<open>177: \<open>lk.unlock()\<close>\<close>
  | JA_bailout              \<comment> \<open>158: \<open>bailout = true\<close>\<close>
  | JA_notify               \<comment> \<open>159: \<open>job_available_var.notify_all()\<close>\<close>
  | JA_joinable nat         \<comment> \<open>161-162: next thread of the loop, \<open>if( x.joinable() )\<close>\<close>
  | JA_join nat             \<comment> \<open>163: \<open>x.join()\<close>\<close>
  | JA_finish               \<comment> \<open>164: \<open>finished = true\<close>\<close>
  | C_undefined             \<comment> \<open>undefined behaviour: \<open>join\<close> on a thread that was joined meanwhile\<close>

record pool =
  ThreadCount :: nat                  \<comment> \<open>the template argument\<close>
  threads :: "wpc list"               \<comment> \<open>\<open>array<thread, ThreadCount>\<close>: where each thread is\<close>
  joined :: "bool list"               \<comment> \<open>per thread: \<open>join\<close> has returned, no longer joinable\<close>
  queue :: "job list"
  jobs_left :: "32 word"
  bailout :: bool
  finished :: bool
  job_available_mutex :: mutex
  wait_mutex :: mutex
  queue_mutex :: mutex
  clients :: "cpc list"               \<comment> \<open>the threads that call the public interface\<close>
  submitted :: "job list"             \<comment> \<open>history: jobs in the order of \<open>emplace_back\<close>\<close>
  dequeued :: "job list"              \<comment> \<open>history: jobs in the order of \<open>pop_front\<close>\<close>
  ran :: "job list"                   \<comment> \<open>history: jobs in the order they were invoked\<close>

text \<open>The constructor (lines 97-104): the counters are initialised and \<open>ThreadCount\<close>
  threads are started on \<open>Task\<close>. \<open>M\<close> is the number of client threads of the program
  that uses the pool.\<close>

definition ThreadPool :: "nat \<Rightarrow> nat \<Rightarrow> pool" where
  "ThreadPool N M =
     \<lparr> ThreadCount = N, threads = replicate N T_while, joined = replicate N False,
       queue = [], jobs_left = 0, bailout = False, finished = False,
       job_available_mutex = None, wait_mutex = None, queue_mutex = None,
       clients = replicate M Idle, submitted = [], dequeued = [], ran = [] \<rparr>"

text \<open>\<open>Size\<close> (lines 116-118).\<close>

definition Size :: "pool \<Rightarrow> nat" where
  "Size s = ThreadCount s"

text \<open>What \<open>JobsRemaining\<close> returns (line 125): \<open>queue.size()\<close> converted to \<open>unsigned\<close>.\<close>

definition queue_size :: "pool \<Rightarrow> 32 word" where
  "queue_size s = of_nat (length (queue s))"

subsection \<open>Condition variables\<close>

definition set_wpc :: "nat \<Rightarrow> wpc \<Rightarrow> pool \<Rightarrow> pool" where
  "set_wpc w p s = s\<lparr>threads := (threads s)[w := p]\<rparr>"

definition set_cpc :: "nat \<Rightarrow> cpc \<Rightarrow> pool \<Rightarrow> pool" where
  "set_cpc c p s = s\<lparr>clients := (clients s)[c := p]\<rparr>"

fun wa_blocked :: "cpc \<Rightarrow> bool" where
  "wa_blocked (WA_blocked r) = True"
| "wa_blocked _ = False"

fun wa_wake :: "cpc \<Rightarrow> cpc" where
  "wa_wake (WA_blocked r) = WA_woken r"
| "wa_wake p = p"

fun nj_wake :: "wpc \<Rightarrow> wpc" where
  "nj_wake NJ_blocked = NJ_woken"
| "nj_wake p = p"

text \<open>\<open>job_available_var.notify_one()\<close>: \<open>k\<close> is the waiter the system picks. When some
  worker is blocked the pick has to be a blocked worker; when none is, nothing happens.\<close>

definition notify_one_job_available :: "nat \<Rightarrow> pool \<Rightarrow> pool option" where
  "notify_one_job_available k s =
     (if k < length (threads s) \<and> threads s ! k = NJ_blocked then Some (set_wpc k NJ_woken s)
      else if NJ_blocked \<in> set (threads s) then None
      else Some s)"

definition notify_all_job_available :: "pool \<Rightarrow> pool" where
  "notify_all_job_available s = s\<lparr>threads := map nj_wake (threads s)\<rparr>"

text \<open>\<open>wait_var.notify_one()\<close>, the same for the clients blocked in \<open>WaitAll\<close>.\<close>

definition notify_one_wait :: "nat \<Rightarrow> pool \<Rightarrow> pool option" where
  "notify_one_wait k s =
     (if k < length (clients s) \<and> wa_blocked (clients s ! k)
        then Some (set_cpc k (wa_wake (clients s ! k)) s)
      else if list_ex wa_blocked (clients s) then None
      else Some s)"

subsection \<open>One action of a worker thread\<close>

text \<open>\<open>next_job\<close> (lines 66-94): the action of worker \<open>w\<close> at a program counter inside
  \<open>next_job\<close>, \<open>None\<close> when the worker is blocked there. The predicate of the wait
  (line 78) calls \<open>JobsRemaining\<close> (lines 123-126), which locks and unlocks \<open>queue_mutex\<close>.
  The last action (line 91) returns \<open>res\<close> to \<open>Task\<close>.\<close>

definition next_job :: "nat \<Rightarrow> pool \<Rightarrow> pool option" where
  "next_job w s =
     (case threads s ! w of
        NJ_lock_avail \<Rightarrow>
          (if job_available_mutex s = None
           then Some (set_wpc w NJ_lock_queue (s\<lparr>job_available_mutex := Some (Worker w)\<rparr>))
           else None)
      | NJ_lock_queue \<Rightarrow>
          (if queue_mutex s = None
           then Some (set_wpc w NJ_empty (s\<lparr>queue_mutex := Some (Worker w)\<rparr>))
           else None)
      | NJ_empty \<Rightarrow> Some (set_wpc w (if queue s \<noteq> [] then NJ_front else NJ_unlock_wait) s)
      | NJ_front \<Rightarrow>
          (case queue s of
             [] \<Rightarrow> Some (set_wpc w W_undefined s)
           | j # q \<Rightarrow> Some (set_wpc w (NJ_pop j) s))
      | NJ_pop j \<Rightarrow>
          (case queue s of
             [] \<Rightarrow> Some (set_wpc w W_undefined s)
           | j' # q \<Rightarrow>
               Some (set_wpc w (NJ_unlock_queue j) (s\<lparr>queue := q, dequeued := dequeued s @ [j']\<rparr>)))
      | NJ_unlock_wait \<Rightarrow> Some (set_wpc w WP_lock (s\<lparr>queue_mutex := None\<rparr>))
      | WP_lock \<Rightarrow>
          (if queue_mutex s = None
           then Some (set_wpc w WP_size (s\<lparr>queue_mutex := Some (Worker w)\<rparr>))
           else None)
      | WP_size \<Rightarrow> Some (set_wpc w (WP_unlock (queue_size s)) s)
      | WP_unlock n \<Rightarrow> Some (set_wpc w (WP_or n) (s\<lparr>queue_mutex := None\<rparr>))
      | WP_or n \<Rightarrow> Some (set_wpc w (if n \<noteq> 0 \<or> bailout s then NJ_relock_queue else NJ_wait) s)
      | NJ_wait \<Rightarrow> Some (set_wpc w NJ_blocked (s\<lparr>job_available_mutex := None\<rparr>))
      | NJ_blocked \<Rightarrow> None
      | NJ_woken \<Rightarrow>
          (if job_available_mutex s = None
           then Some (set_wpc w WP_lock (s\<lparr>job_available_mutex := Some (Worker w)\<rparr>))
           else None)
      | NJ_relock_queue \<Rightarrow>
          (if queue_mutex s = None
           then Some (set_wpc w NJ_bailout (s\<lparr>queue_mutex := Some (Worker w)\<rparr>))
           else None)
      | NJ_bailout \<Rightarrow> Some (set_wpc w (if \<not> bailout s then NJ_front else NJ_inject) s)
      | NJ_inject \<Rightarrow> Some (set_wpc w (NJ_inc NoOp) s)
      | NJ_inc j \<Rightarrow> Some (set_wpc w (NJ_unlock_queue j) (s\<lparr>jobs_left := jobs_left s + 1\<rparr>))
      | NJ_unlock_queue j \<Rightarrow> Some (set_wpc w (NJ_unlock_avail j) (s\<lparr>queue_mutex := None\<rparr>))
      | NJ_unlock_avail j \<Rightarrow> Some (set_wpc w (T_call j) (s\<lparr>job_available_mutex := None\<rparr>))
      | _ \<Rightarrow> None)"

text \<open>\<open>Task\<close> (lines 54-60): the loop of worker \<open>w\<close>. \<open>k\<close> is the waiter picked by the
  \<open>notify_one\<close> of line 58. A worker that has left the loop, or has run into undefined
  behaviour, does nothing more.\<close>

definition Task :: "nat \<Rightarrow> nat \<Rightarrow> pool \<Rightarrow> pool option" where
  "Task w k s =
     (case threads s ! w of
        T_while \<Rightarrow> Some (set_wpc w (if bailout s then T_exit else NJ_lock_avail) s)
      | T_call j \<Rightarrow> Some (set_wpc w T_dec (s\<lparr>ran := ran s @ [j]\<rparr>))
      | T_dec \<Rightarrow> Some (set_wpc w T_notify (s\<lparr>jobs_left := jobs_left s - 1\<rparr>))
      | T_notify \<Rightarrow> map_option (set_wpc w T_while) (notify_one_wait k s)
      | T_exit \<Rightarrow> None
      | W_undefined \<Rightarrow> None
      | _ \<Rightarrow> next_job w s)"

definition worker_step :: "nat \<Rightarrow> nat \<Rightarrow> pool \<Rightarrow> pool option" where
  "worker_step w k s = (if length (threads s) \<le> w then None else Task w k s)"

subsection \<open>One action of a client thread\<close>

text \<open>\<open>AddJob\<close> (lines 133-138): the action of client \<open>c\<close> at a program counter inside
  \<open>AddJob\<close>. \<open>k\<close> is the waiter picked by the \<open>notify_one\<close> of line 137.\<close>

definition AddJob :: "nat \<Rightarrow> nat \<Rightarrow> pool \<Rightarrow> pool option" where
  "AddJob c k s =
     (case clients s ! c of
        AJ_lock j \<Rightarrow>
          (if queue_mutex s = None
           then Some (set_cpc c (AJ_emplace j) (s\<lparr>queue_mutex := Some (Client c)\<rparr>))
           else None)
      | AJ_emplace j \<Rightarrow>
          Some (set_cpc c AJ_inc (s\<lparr>queue := queue s @ [j], submitted := submitted s @ [j]\<rparr>))
      | AJ_inc \<Rightarrow> Some (set_cpc c AJ_notify (s\<lparr>jobs_left := jobs_left s + 1\<rparr>))
      | AJ_notify \<Rightarrow> map_option (set_cpc c AJ_unlock) (notify_one_job_available k s)
      | AJ_unlock \<Rightarrow> Some (set_cpc c Idle (s\<lparr>queue_mutex := None\<rparr>))
      | _ \<Rightarrow> None)"

text \<open>\<open>JobsRemaining\<close> (lines 123-126), called by a client.\<close>

definition JobsRemaining :: "nat \<Rightarrow> pool \<Rightarrow> pool option" where
  "JobsRemaining c s =
     (case clients s ! c of
        JR_lock \<Rightarrow>
          (if queue_mutex s = None
           then Some (set_cpc c JR_size (s\<lparr>queue_mutex := Some (Client c)\<rparr>))
           else None)
      | JR_size \<Rightarrow> Some (set_cpc c (JR_unlock (queue_size s)) s)
      | JR_unlock n \<Rightarrow> Some (set_cpc c (Ret n) (s\<lparr>queue_mutex := None\<rparr>))
      | _ \<Rightarrow> None)"

text \<open>Where \<open>WaitAll\<close> returns to: into \<open>JoinAll\<close> at line 158, or to the caller.\<close>

definition wa_return :: "bool \<Rightarrow> cpc" where
  "wa_return r = (if r then JA_bailout else Idle)"

text \<open>\<open>WaitAll\<close> (lines 173-179).\<close>

definition WaitAll :: "nat \<Rightarrow> pool \<Rightarrow> pool option" where
  "WaitAll c s =
     (case clients s ! c of
        WA_check r \<Rightarrow>
          Some (set_cpc c (if 0 < sint (jobs_left s) then WA_lock r else wa_return r) s)
      | WA_lock r \<Rightarrow>
          (if wait_mutex s = None
           then Some (set_cpc c (WA_pred r) (s\<lparr>wait_mutex := Some (Client c)\<rparr>))
           else None)
      | WA_pred r \<Rightarrow> Some (set_cpc c (if jobs_left s = 0 then WA_unlock r else WA_wait r) s)
      | WA_wait r \<Rightarrow> Some (set_cpc c (WA_blocked r) (s\<lparr>wait_mutex := None\<rparr>))
      | WA_blocked r \<Rightarrow> None
      | WA_woken r \<Rightarrow>
          (if wait_mutex s = None
           then Some (set_cpc c (WA_pred r) (s\<lparr>wait_mutex := Some (Client c)\<rparr>))
           else None)
      | WA_unlock r \<Rightarrow> Some (set_cpc c (wa_return r) (s\<lparr>wait_mutex := None\<rparr>))
      | _ \<Rightarrow> None)"

text \<open>\<open>JoinAll\<close> (lines 150-166). The call of \<open>WaitAll\<close> in line 153 is the program
  counter \<open>WA_check True\<close>. \<open>join\<close> on a thread is enabled once the thread has returned
  from \<open>Task\<close>.\<close>

definition JoinAll :: "nat \<Rightarrow> pool \<Rightarrow> pool option" where
  "JoinAll c s =
     (case clients s ! c of
        JA_finished b \<Rightarrow>
          Some (set_cpc c (if finished s then Idle else if b then WA_check True else JA_bailout) s)
      | JA_bailout \<Rightarrow> Some (set_cpc c JA_notify (s\<lparr>bailout := True\<rparr>))
      | JA_notify \<Rightarrow> Some (set_cpc c (JA_joinable 0) (notify_all_job_available s))
      | JA_joinable i \<Rightarrow>
          Some (set_cpc c
            (if i < ThreadCount s
             then (if \<not> joined s ! i then JA_join i else JA_joinable (Suc i))
             else JA_finish) s)
      | JA_join i \<Rightarrow>
          (if joined s ! i then Some (set_cpc c C_undefined s)
           else if threads s ! i = T_exit
             then Some (set_cpc c (JA_joinable (Suc i)) (s\<lparr>joined := (joined s)[i := True]\<rparr>))
           else None)
      | JA_finish \<Rightarrow> Some (set_cpc c Idle (s\<lparr>finished := True\<rparr>))
      | _ \<Rightarrow> None)"

text \<open>The action of client \<open>c\<close>: that of the member function it is in. A client outside
  the pool acts by a call only.\<close>

definition client_step :: "nat \<Rightarrow> nat \<Rightarrow> pool \<Rightarrow> pool option" where
  "client_step c k s =
     (if length (clients s) \<le> c then None else
      case clients s ! c of
        Idle \<Rightarrow> None
      | Ret n \<Rightarrow> None
      | AJ_lock j \<Rightarrow> AddJob c k s
      | AJ_emplace j \<Rightarrow> AddJob c k s
      | AJ_inc \<Rightarrow> AddJob c k s
      | AJ_notify \<Rightarrow> AddJob c k s
      | AJ_unlock \<Rightarrow> AddJob c k s
      | JR_lock \<Rightarrow> JobsRemaining c s
      | JR_size \<Rightarrow> JobsRemaining c s
      | JR_unlock n \<Rightarrow> JobsRemaining c s
      | JA_finished b \<Rightarrow> JoinAll c s
      | WA_check r \<Rightarrow> WaitAll c s
      | WA_lock r \<Rightarrow> WaitAll c s
      | WA_pred r \<Rightarrow> WaitAll c s
      | WA_wait r \<Rightarrow> WaitAll c s
      | WA_blocked r \<Rightarrow> WaitAll c s
      | WA_woken r \<Rightarrow> WaitAll c s
      | WA_unlock r \<Rightarrow> WaitAll c s
      | JA_bailout \<Rightarrow> JoinAll c s
      | JA_notify \<Rightarrow> JoinAll c s
      | JA_joinable i \<Rightarrow> JoinAll c s
      | JA_join i \<Rightarrow> JoinAll c s
      | JA_finish \<Rightarrow> JoinAll c s
      | C_undefined \<Rightarrow> None)"

subsection \<open>Calls, events and runs\<close>

text \<open>The calls a client can make: \<open>AddJob(j)\<close>, \<open>JobsRemaining()\<close>, \<open>JoinAll(b)\<close> (also
  what the destructor does) and \<open>WaitAll()\<close>; \<open>entry\<close> is the first line of each.\<close>

datatype call = CallAddJob job | CallJobsRemaining | CallJoinAll bool | CallWaitAll

definition entry :: "call \<Rightarrow> cpc" where
  "entry f = (case f of
       CallAddJob j \<Rightarrow> AJ_lock j
     | CallJobsRemaining \<Rightarrow> JR_lock
     | CallJoinAll b \<Rightarrow> JA_finished b
     | CallWaitAll \<Rightarrow> WA_check False)"

fun outside :: "cpc \<Rightarrow> bool" where
  "outside Idle = True"
| "outside (Ret n) = True"
| "outside _ = False"

definition call_step :: "nat \<Rightarrow> call \<Rightarrow> pool \<Rightarrow> pool option" where
  "call_step c f s =
     (if c < length (clients s) \<and> outside (clients s ! c) then Some (set_cpc c (entry f) s)
      else None)"

text \<open>A blocked thread may wake up without a notification.\<close>

definition spurious_worker :: "nat \<Rightarrow> pool \<Rightarrow> pool option" where
  "spurious_worker w s =
     (if w < length (threads s) \<and> threads s ! w = NJ_blocked then Some (set_wpc w NJ_woken s)
      else None)"

definition spurious_client :: "nat \<Rightarrow> pool \<Rightarrow> pool option" where
  "spurious_client c s =
     (if c < length (clients s) \<and> wa_blocked (clients s ! c)
      then Some (set_cpc c (wa_wake (clients s ! c)) s)
      else None)"

text \<open>An event is one action of one thread. The second argument of \<open>WStep\<close> and \<open>CStep\<close>
  is the waiter picked when the action is a \<open>notify_one\<close>, and is ignored otherwise.\<close>

datatype event =
    Call nat call
  | CStep nat nat
  | WStep nat nat
  | WakeW nat
  | WakeC nat

fun step :: "event \<Rightarrow> pool \<Rightarrow> pool option" where
  "step (Call c f) s = call_step c f s"
| "step (CStep c k) s = client_step c k s"
| "step (WStep w k) s = worker_step w k s"
| "step (WakeW w) s = spurious_worker w s"
| "step (WakeC c) s = spurious_client c s"

fun run :: "event list \<Rightarrow> pool \<Rightarrow> pool option" where
  "run [] s = Some s"
| "run (e # es) s = (case step e s of None \<Rightarrow> None | Some s' \<Rightarrow> run es s')"

inductive reachable :: "nat \<Rightarrow> nat \<Rightarrow> pool \<Rightarrow> bool" for N M where
  reachable_init: "reachable N M (ThreadPool N M)"
| reachable_step: "reachable N M s \<Longrightarrow> step e s = Some s' \<Longrightarrow> reachable N M s'"

subsection \<open>Invariants of the reachable states\<close>

text \<open>Which program counters lie inside a critical section of \<open>queue_mutex\<close> and of
  \<open>job_available_mutex\<close>.\<close>

fun holds_queue_w :: "wpc \<Rightarrow> bool" where
  "holds_queue_w NJ_empty = True"
| "holds_queue_w NJ_front = True"
| "holds_queue_w (NJ_pop j) = True"
| "holds_queue_w NJ_unlock_wait = True"
| "holds_queue_w WP_size = True"
| "holds_queue_w (WP_unlock n) = True"
| "holds_queue_w NJ_bailout = True"
| "holds_queue_w NJ_inject = True"
| "holds_queue_w (NJ_inc j) = True"
| "holds_queue_w (NJ_unlock_queue j) = True"
| "holds_queue_w W_undefined = True"
| "holds_queue_w _ = False"

fun holds_queue_c :: "cpc \<Rightarrow> bool" where
  "holds_queue_c (AJ_emplace j) = True"
| "holds_queue_c AJ_inc = True"
| "holds_queue_c AJ_notify = True"
| "holds_queue_c AJ_unlock = True"
| "holds_queue_c JR_size = True"
| "holds_queue_c (JR_unlock n) = True"
| "holds_queue_c _ = False"

fun holds_avail :: "wpc \<Rightarrow> bool" where
  "holds_avail T_while = False"
| "holds_avail NJ_lock_avail = False"
| "holds_avail NJ_blocked = False"
| "holds_avail NJ_woken = False"
| "holds_avail (T_call j) = False"
| "holds_avail T_dec = False"
| "holds_avail T_notify = False"
| "holds_avail T_exit = False"
| "holds_avail _ = True"

text \<open>A thread is inside a critical section exactly when it owns the mutex: \<open>ps\<close> are
  the program counters, \<open>h\<close> says which of them lie inside, \<open>mk i\<close> is the identity of
  thread \<open>i\<close>. (The front and pop of an empty list happen inside both critical
  sections of the worker, so \<open>W_undefined\<close> is inside.)\<close>

definition owns :: "('p \<Rightarrow> bool) \<Rightarrow> 'p list \<Rightarrow> (nat \<Rightarrow> tid) \<Rightarrow> mutex \<Rightarrow> bool" where
  "owns h ps mk m \<longleftrightarrow> (\<forall>i < length ps. h (ps ! i) = (m = Some (mk i)))"

definition mutex_inv :: "pool \<Rightarrow> bool" where
  "mutex_inv s \<longleftrightarrow>
     owns holds_queue_w (threads s) Worker (queue_mutex s) \<and>
     owns holds_queue_c (clients s) Client (queue_mutex s) \<and>
     owns holds_avail (threads s) Worker (job_available_mutex s)"

text \<open>A worker accounts for one unit of \<open>jobs_left\<close> from the moment it has taken a job
  off the queue (line 74 or 83) or has counted its injected job (line 87) until its
  decrement (line 57).\<close>

fun counted :: "wpc \<Rightarrow> bool" where
  "counted (NJ_unlock_queue j) = True"
| "counted (NJ_unlock_avail j) = True"
| "counted (T_call j) = True"
| "counted T_dec = True"
| "counted _ = False"

definition executing :: "pool \<Rightarrow> nat" where
  "executing s = length (filter counted (threads s))"

text \<open>A submission between its \<open>emplace_back\<close> (line 135) and its increment (line 136):
  the job is in the queue and not yet counted.\<close>

definition inflight :: "pool \<Rightarrow> nat" where
  "inflight s = (if AJ_inc \<in> set (clients s) then 1 else 0)"

definition counter_inv :: "pool \<Rightarrow> bool" where
  "counter_inv s \<longleftrightarrow>
     jobs_left s + of_nat (inflight s) = of_nat (length (queue s) + executing s) \<and>
     inflight s \<le> length (queue s)"

text \<open>The jobs submitted and counted but not yet completed.\<close>

definition outstanding :: "pool \<Rightarrow> nat" where
  "outstanding s = length (queue s) + executing s - inflight s"

text \<open>What a worker between the test of the queue and \<open>pop_front\<close> relies on.\<close>

fun fetch_ok :: "wpc \<Rightarrow> job list \<Rightarrow> bool \<Rightarrow> bool" where
  "fetch_ok NJ_front q b = (q \<noteq> [])"
| "fetch_ok (NJ_pop j) q b = (q \<noteq> [] \<and> hd q = j)"
| "fetch_ok (WP_unlock n) q b = (n = 0 \<or> q \<noteq> [])"
| "fetch_ok (WP_or n) q b = (n = 0 \<or> q \<noteq> [])"
| "fetch_ok NJ_relock_queue q b = (q \<noteq> [] \<or> b)"
| "fetch_ok NJ_bailout q b = (q \<noteq> [] \<or> b)"
| "fetch_ok W_undefined q b = False"
| "fetch_ok _ q b = True"

definition fetch_inv :: "pool \<Rightarrow> bool" where
  "fetch_inv s \<longleftrightarrow> (\<forall>w < length (threads s). fetch_ok (threads s ! w) (queue s) (bailout s))"

definition fifo_inv :: "pool \<Rightarrow> bool" where
  "fifo_inv s \<longleftrightarrow> submitted s = dequeued s @ queue s"

definition size_inv :: "nat \<Rightarrow> nat \<Rightarrow> pool \<Rightarrow> bool" where
  "size_inv N M s \<longleftrightarrow>
     ThreadCount s = N \<and> length (threads s) = N \<and> length (joined s) = N \<and> length (clients s) = M"

subsection \<open>Complete calls\<close>

text \<open>A complete call of \<open>AddJob\<close> that is not interleaved with other threads.\<close>

definition AddJob_events :: "nat \<Rightarrow> job \<Rightarrow> nat \<Rightarrow> event list" where
  "AddJob_events c j k = Call c (CallAddJob j) # replicate 5 (CStep c k)"

text \<open>Which actions change \<open>jobs_left\<close>: the increment of a submission (line 136), the
  increment for an injected job (line 87), and the decrement after a job (line 57).\<close>

definition increments :: "event \<Rightarrow> pool \<Rightarrow> bool" where
  "increments e s =
     (case e of
        CStep c k \<Rightarrow> c < length (clients s) \<and> clients s ! c = AJ_inc
      | WStep w k \<Rightarrow> w < length (threads s) \<and> (case threads s ! w of NJ_inc j \<Rightarrow> True | _ \<Rightarrow> False)
      | _ \<Rightarrow> False)"

definition decrements :: "event \<Rightarrow> pool \<Rightarrow> bool" where
  "decrements e s =
     (case e of
        WStep w k \<Rightarrow> w < length (threads s) \<and> threads s ! w = T_dec
      | _ \<Rightarrow> False)"

subsection \<open>Invariants of the shutdown\<close>

text \<open>A client that has passed line 158 of \<open>JoinAll\<close> (a client whose \<open>join\<close> went wrong
  stays there for good).\<close>

fun past_raise :: "cpc \<Rightarrow> bool" where
  "past_raise JA_notify = True"
| "past_raise (JA_joinable i) = True"
| "past_raise (JA_join i) = True"
| "past_raise JA_finish = True"
| "past_raise C_undefined = True"
| "past_raise _ = False"

text \<open>How many threads, counted from the first, the loop of lines 161-163 has passed.\<close>

fun joined_before :: "cpc \<Rightarrow> nat \<Rightarrow> nat" where
  "joined_before (JA_joinable i) n = min i n"
| "joined_before (JA_join i) n = min i n"
| "joined_before JA_finish n = n"
| "joined_before _ n = 0"

definition client_ok :: "pool \<Rightarrow> cpc \<Rightarrow> bool" where
  "client_ok s p \<longleftrightarrow>
     (past_raise p \<longrightarrow> bailout s) \<and> (\<forall>i < joined_before p (ThreadCount s). joined s ! i)"

definition join_inv :: "pool \<Rightarrow> bool" where
  "join_inv s \<longleftrightarrow>
     (\<forall>c < length (clients s). client_ok s (clients s ! c)) \<and>
     (\<forall>i < ThreadCount s. joined s ! i \<longrightarrow> threads s ! i = T_exit) \<and>
     (finished s \<longrightarrow> bailout s \<and> (\<forall>i < ThreadCount s. joined s ! i)) \<and>
     (bailout s \<longrightarrow> finished s \<or> list_ex past_raise (clients s))"

text \<open>The job a worker has fetched and not yet called.\<close>

fun carried :: "wpc \<Rightarrow> job multiset" where
  "carried (NJ_unlock_queue j) = {#j#}"
| "carried (NJ_unlock_avail j) = {#j#}"
| "carried (T_call j) = {#j#}"
| "carried _ = {#}"

definition in_hand :: "pool \<Rightarrow> job multiset" where
  "in_hand s = sum_list (map carried (threads s))"

text \<open>Every job taken off the queue has been called or is in the hand of a worker.\<close>

definition run_inv :: "pool \<Rightarrow> bool" where
  "run_inv s \<longleftrightarrow> mset (dequeued s) \<subseteq># mset (ran s) + in_hand s"

subsection \<open>Who acts, and who owns a mutex\<close>

fun actor :: "event \<Rightarrow> tid" where
  "actor (Call c f) = Client c"
| "actor (CStep c k) = Client c"
| "actor (WStep w k) = Worker w"
| "actor (WakeW w) = Worker w"
| "actor (WakeC c) = Client c"

text \<open>The owner of \<open>queue_mutex\<close> is a thread of the pool or one of the clients.\<close>

definition owner_inv :: "pool \<Rightarrow> bool" where
  "owner_inv s \<longleftrightarrow>
     (case queue_mutex s of
        None \<Rightarrow> True
      | Some (Worker w) \<Rightarrow> w < length (threads s)
      | Some (Client c) \<Rightarrow> c < length (clients s))"

section \<open>Proofs of the invariants\<close>

text \<open>The actions of a thread, all program counters in one table.\<close>

lemma worker_step_unfold:
  "worker_step w k s =
     (if length (threads s) \<le> w then None else
      case threads s ! w of
        T_while \<Rightarrow> Some (set_wpc w (if bailout s then T_exit else NJ_lock_avail) s)
      | NJ_lock_avail \<Rightarrow>
          (if job_available_mutex s = None
           then Some (set_wpc w NJ_lock_queue (s\<lparr>job_available_mutex := Some (Worker w)\<rparr>))
           else None)
      | NJ_lock_queue \<Rightarrow>
          (if queue_mutex s = None
           then Some (set_wpc w NJ_empty (s\<lparr>queue_mutex := Some (Worker w)\<rparr>))
           else None)
      | NJ_empty \<Rightarrow> Some (set_wpc w (if queue s \<noteq> [] then NJ_front else NJ_unlock_wait) s)
      | NJ_front \<Rightarrow>
          (case queue s of
             [] \<Rightarrow> Some (set_wpc w W_undefined s)
           | j # q \<Rightarrow> Some (set_wpc w (NJ_pop j) s))
      | NJ_pop j \<Rightarrow>
          (case queue s of
             [] \<Rightarrow> Some (set_wpc w W_undefined s)
           | j' # q \<Rightarrow>
               Some (set_wpc w (NJ_unlock_queue j) (s\<lparr>queue := q, dequeued := dequeued s @ [j']\<rparr>)))
      | NJ_unlock_wait \<Rightarrow> Some (set_wpc w WP_lock (s\<lparr>queue_mutex := None\<rparr>))
      | WP_lock \<Rightarrow>
          (if queue_mutex s = None
           then Some (set_wpc w WP_size (s\<lparr>queue_mutex := Some (Worker w)\<rparr>))
           else None)
      | WP_size \<Rightarrow> Some (set_wpc w (WP_unlock (queue_size s)) s)
      | WP_unlock n \<Rightarrow> Some (set_wpc w (WP_or n) (s\<lparr>queue_mutex := None\<rparr>))
      | WP_or n \<Rightarrow> Some (set_wpc w (if n \<noteq> 0 \<or> bailout s then NJ_relock_queue else NJ_wait) s)
      | NJ_wait \<Rightarrow> Some (set_wpc w NJ_blocked (s\<lparr>job_available_mutex := None\<rparr>))
      | NJ_blocked \<Rightarrow> None
      | NJ_woken \<Rightarrow>
          (if job_available_mutex s = None
           then Some (set_wpc w WP_lock (s\<lparr>job_available_mutex := Some (Worker w)\<rparr>))
           else None)
      | NJ_relock_queue \<Rightarrow>
          (if queue_mutex s = None
           then Some (set_wpc w NJ_bailout (s\<lparr>queue_mutex := Some (Worker w)\<rparr>))
           else None)
      | NJ_bailout \<Rightarrow> Some (set_wpc w (if \<not> bailout s then NJ_front else NJ_inject) s)
      | NJ_inject \<Rightarrow> Some (set_wpc w (NJ_inc NoOp) s)
      | NJ_inc j \<Rightarrow> Some (set_wpc w (NJ_unlock_queue j) (s\<lparr>jobs_left := jobs_left s + 1\<rparr>))
      | NJ_unlock_queue j \<Rightarrow> Some (set_wpc w (NJ_unlock_avail j) (s\<lparr>queue_mutex := None\<rparr>))
      | NJ_unlock_avail j \<Rightarrow> Some (set_wpc w (T_call j) (s\<lparr>job_available_mutex := None\<rparr>))
      | T_call j \<Rightarrow> Some (set_wpc w T_dec (s\<lparr>ran := ran s @ [j]\<rparr>))
      | T_dec \<Rightarrow> Some (set_wpc w T_notify (s\<lparr>jobs_left := jobs_left s - 1\<rparr>))
      | T_notify \<Rightarrow> map_option (set_wpc w T_while) (notify_one_wait k s)
      | T_exit \<Rightarrow> None
      | W_undefined \<Rightarrow> None)"
  by (cases "threads s ! w") (simp_all add: worker_step_def Task_def next_job_def)

lemma client_step_unfold:
  "client_step c k s =
     (if length (clients s) \<le> c then None else
      case clients s ! c of
        Idle \<Rightarrow> None
      | Ret n \<Rightarrow> None
      | AJ_lock j \<Rightarrow>
          (if queue_mutex s = None
           then Some (set_cpc c (AJ_emplace j) (s\<lparr>queue_mutex := Some (Client c)\<rparr>))
           else None)
      | AJ_emplace j \<Rightarrow>
          Some (set_cpc c AJ_inc (s\<lparr>queue := queue s @ [j], submitted := submitted s @ [j]\<rparr>))
      | AJ_inc \<Rightarrow> Some (set_cpc c AJ_notify (s\<lparr>jobs_left := jobs_left s + 1\<rparr>))
      | AJ_notify \<Rightarrow> map_option (set_cpc c AJ_unlock) (notify_one_job_available k s)
      | AJ_unlock \<Rightarrow> Some (set_cpc c Idle (s\<lparr>queue_mutex := None\<rparr>))
      | JR_lock \<Rightarrow>
          (if queue_mutex s = None
           then Some (set_cpc c JR_size (s\<lparr>queue_mutex := Some (Client c)\<rparr>))
           else None)
      | JR_size \<Rightarrow> Some (set_cpc c (JR_unlock (queue_size s)) s)
      | JR_unlock n \<Rightarrow> Some (set_cpc c (Ret n) (s\<lparr>queue_mutex := None\<rparr>))
      | JA_finished b \<Rightarrow>
          Some (set_cpc c (if finished s then Idle else if b then WA_check True else JA_bailout) s)
      | WA_check r \<Rightarrow>
          Some (set_cpc c (if 0 < sint (jobs_left s) then WA_lock r else wa_return r) s)
      | WA_lock r \<Rightarrow>
          (if wait_mutex s = None
           then Some (set_cpc c (WA_pred r) (s\<lparr>wait_mutex := Some (Client c)\<rparr>))
           else None)
      | WA_pred r \<Rightarrow> Some (set_cpc c (if jobs_left s = 0 then WA_unlock r else WA_wait r) s)
      | WA_wait r \<Rightarrow> Some (set_cpc c (WA_blocked r) (s\<lparr>wait_mutex := None\<rparr>))
      | WA_blocked r \<Rightarrow> None
      | WA_woken r \<Rightarrow>
          (if wait_mutex s = None
           then Some (set_cpc c (WA_pred r) (s\<lparr>wait_mutex := Some (Client c)\<rparr>))
           else None)
      | WA_unlock r \<Rightarrow> Some (set_cpc c (wa_return r) (s\<lparr>wait_mutex := None\<rparr>))
      | JA_bailout \<Rightarrow> Some (set_cpc c JA_notify (s\<lparr>bailout := True\<rparr>))
      | JA_notify \<Rightarrow> Some (set_cpc c (JA_joinable 0) (notify_all_job_available s))
      | JA_joinable i \<Rightarrow>
          Some (set_cpc c
            (if i < ThreadCount s
             then (if \<not> joined s ! i then JA_join i else JA_joinable (Suc i))
             else JA_finish) s)
      | JA_join i \<Rightarrow>
          (if joined s ! i then Some (set_cpc c C_undefined s)
           else if threads s ! i = T_exit
             then Some (set_cpc c (JA_joinable (Suc i)) (s\<lparr>joined := (joined s)[i := True]\<rparr>))
           else None)
      | JA_finish \<Rightarrow> Some (set_cpc c Idle (s\<lparr>finished := True\<rparr>))
      | C_undefined \<Rightarrow> None)"
  by (cases "clients s ! c") (simp_all add: client_step_def AddJob_def JobsRemaining_def WaitAll_def JoinAll_def)

lemma reachable_run:
  "reachable N M s \<Longrightarrow> run es s = Some s' \<Longrightarrow> reachable N M s'"
proof (induction es arbitrary: s)
  case Nil
  then show ?case by simp
next
  case (Cons e es)
  then show ?case
    by (auto split: option.splits intro: reachable_step)
qed


subsection \<open>Mutual exclusion\<close>

lemma owns_step:
  assumes "owns h ps mk m" "i < length ps" "\<And>j. mk j = mk i \<Longrightarrow> j = i"
    and "m' = m \<or> m = None \<and> m' = Some (mk i) \<or> m = Some (mk i) \<and> m' = None"
    and "h p = (m' = Some (mk i))"
  shows "owns h (ps[i := p]) mk m'"
  unfolding owns_def
proof (intro allI impI)
  fix j assume "j < length (ps[i := p])"
  then have j: "j < length ps" by simp
  show "h (ps[i := p] ! j) = (m' = Some (mk j))"
  proof (cases "j = i")
    case True
    then show ?thesis using assms(2,5) by simp
  next
    case False
    then have "mk j \<noteq> mk i" using assms(3) by blast
    moreover have "h (ps ! j) = (m = Some (mk j))" using assms(1) j by (simp add: owns_def)
    ultimately show ?thesis using False assms(4) by auto
  qed
qed

lemma owns_update_same:
  "owns h ps mk m \<Longrightarrow> i < length ps \<Longrightarrow> h p = h (ps ! i) \<Longrightarrow> owns h (ps[i := p]) mk m"
  by (auto simp: owns_def nth_list_update)

lemma owns_other:
  "owns h ps mk m \<Longrightarrow> (\<And>j. (m' = Some (mk j)) = (m = Some (mk j))) \<Longrightarrow> owns h ps mk m'"
  by (simp add: owns_def)

lemma owns_map: "(\<And>p. h (f p) = h p) \<Longrightarrow> owns h (map f ps) mk m = owns h ps mk m"
  by (simp add: owns_def)

lemma owns_holder:
  "owns h ps mk m \<Longrightarrow> i < length ps \<Longrightarrow> h (ps ! i) \<Longrightarrow> m = Some (mk i)"
  by (simp add: owns_def)

lemma owns_not_holder:
  "owns h ps mk m \<Longrightarrow> i < length ps \<Longrightarrow> \<not> h (ps ! i) \<Longrightarrow> m \<noteq> Some (mk i)"
  by (simp add: owns_def)

lemma worker_step_less: "worker_step w k s = Some s' \<Longrightarrow> w < length (threads s)"
  by (auto simp: worker_step_unfold split: if_splits)

lemma mutex_inv_worker:
  assumes inv: "mutex_inv s" and st: "worker_step w k s = Some s'"
  shows "mutex_inv s'"
proof -
  have w: "w < length (threads s)" using st by (rule worker_step_less)
  have q: "owns holds_queue_w (threads s) Worker (queue_mutex s)"
    and c: "owns holds_queue_c (clients s) Client (queue_mutex s)"
    and a: "owns holds_avail (threads s) Worker (job_available_mutex s)"
    using inv by (simp_all add: mutex_inv_def)
  have hq: "holds_queue_w (threads s ! w) = (queue_mutex s = Some (Worker w))"
    and ha: "holds_avail (threads s ! w) = (job_available_mutex s = Some (Worker w))"
    using q a w by (simp_all add: owns_def)
  have 1: "owns holds_queue_w (threads s') Worker (queue_mutex s')"
    using st w hq unfolding worker_step_unfold set_wpc_def notify_one_wait_def set_cpc_def
    by (cases "threads s ! w")
       (auto split: if_splits list.splits intro!: owns_step [OF q])
  have 3: "owns holds_avail (threads s') Worker (job_available_mutex s')"
    using st w ha unfolding worker_step_unfold set_wpc_def notify_one_wait_def set_cpc_def
    by (cases "threads s ! w")
       (auto split: if_splits list.splits intro!: owns_step [OF a])
  have 2: "owns holds_queue_c (clients s') Client (queue_mutex s')"
  proof (cases "threads s ! w = T_notify")
    case True
    have wk: "holds_queue_c (wa_wake p) = holds_queue_c p" for p by (cases p) auto
    show ?thesis
      using st w True c unfolding worker_step_unfold set_wpc_def notify_one_wait_def set_cpc_def
      by (auto split: if_splits simp: wk intro!: owns_update_same [OF c])
  next
    case False
    then show ?thesis
      using st w hq unfolding worker_step_unfold set_wpc_def
      by (cases "threads s ! w")
         (auto split: if_splits list.splits intro!: owns_other [OF c])
  qed
  show ?thesis using 1 2 3 by (simp add: mutex_inv_def)
qed

lemma client_step_less: "client_step c k s = Some s' \<Longrightarrow> c < length (clients s)"
  by (auto simp: client_step_unfold split: if_splits)

lemma holds_nj_wake [simp]:
  "holds_queue_w (nj_wake p) = holds_queue_w p" "holds_avail (nj_wake p) = holds_avail p"
  by (cases p; simp)+

lemma holds_wa_wake [simp]: "holds_queue_c (wa_wake p) = holds_queue_c p"
  by (cases p) auto

lemma mutex_inv_client:
  assumes inv: "mutex_inv s" and st: "client_step c k s = Some s'"
  shows "mutex_inv s'"
proof -
  have c: "c < length (clients s)" using st by (rule client_step_less)
  have q: "owns holds_queue_w (threads s) Worker (queue_mutex s)"
    and cq: "owns holds_queue_c (clients s) Client (queue_mutex s)"
    and a: "owns holds_avail (threads s) Worker (job_available_mutex s)"
    using inv by (simp_all add: mutex_inv_def)
  have hq: "holds_queue_c (clients s ! c) = (queue_mutex s = Some (Client c))"
    using cq c by (simp add: owns_def)
  have 2: "owns holds_queue_c (clients s') Client (queue_mutex s')"
    using st c hq unfolding client_step_unfold set_cpc_def notify_one_job_available_def set_wpc_def
      notify_all_job_available_def wa_return_def
    by (cases "clients s ! c")
       (auto split: if_splits intro!: owns_step [OF cq])
  have 1: "owns holds_queue_w (threads s') Worker (queue_mutex s')"
  proof (cases "clients s ! c = AJ_notify")
    case True
    then show ?thesis
      using st c q unfolding client_step_unfold set_cpc_def notify_one_job_available_def set_wpc_def
      by (auto split: if_splits intro!: owns_update_same [OF q])
  next
    case False
    then show ?thesis
      using st c hq unfolding client_step_unfold set_cpc_def notify_all_job_available_def wa_return_def
      by (cases "clients s ! c")
         (auto split: if_splits simp: owns_map intro!: owns_other [OF q])
  qed
  have 3: "owns holds_avail (threads s') Worker (job_available_mutex s')"
  proof (cases "clients s ! c = AJ_notify")
    case True
    then show ?thesis
      using st c a unfolding client_step_unfold set_cpc_def notify_one_job_available_def set_wpc_def
      by (auto split: if_splits intro!: owns_update_same [OF a])
  next
    case False
    then show ?thesis
      using st c hq unfolding client_step_unfold set_cpc_def notify_all_job_available_def wa_return_def
      by (cases "clients s ! c")
         (use a in \<open>auto split: if_splits simp: owns_map\<close>)
  qed
  show ?thesis using 1 2 3 by (simp add: mutex_inv_def)
qed

lemma mutex_inv_call:
  assumes inv: "mutex_inv s" and st: "call_step c f s = Some s'"
  shows "mutex_inv s'"
proof -
  have c: "c < length (clients s)" and o: "outside (clients s ! c)"
    and s': "s' = set_cpc c (entry f) s"
    using st by (auto simp: call_step_def split: if_splits)
  have e: "\<not> holds_queue_c (entry f)" by (cases f) (simp_all add: entry_def)
  have o': "\<not> holds_queue_c (clients s ! c)" using o by (cases "clients s ! c") auto
  have cq: "owns holds_queue_c (clients s) Client (queue_mutex s)"
    using inv by (simp add: mutex_inv_def)
  have "queue_mutex s \<noteq> Some (Client c)" using cq c o' by (simp add: owns_def)
  then have "owns holds_queue_c ((clients s)[c := entry f]) Client (queue_mutex s)"
    using c e by (auto intro!: owns_step [OF cq])
  then show ?thesis using inv by (simp add: mutex_inv_def s' set_cpc_def)
qed

lemma mutex_inv_spurious_worker:
  assumes inv: "mutex_inv s" and st: "spurious_worker w s = Some s'"
  shows "mutex_inv s'"
proof -
  have w: "w < length (threads s)" and b: "threads s ! w = NJ_blocked"
    and s': "s' = set_wpc w NJ_woken s"
    using st by (auto simp: spurious_worker_def split: if_splits)
  have q: "owns holds_queue_w (threads s) Worker (queue_mutex s)"
    and a: "owns holds_avail (threads s) Worker (job_available_mutex s)"
    using inv by (simp_all add: mutex_inv_def)
  have "owns holds_queue_w ((threads s)[w := NJ_woken]) Worker (queue_mutex s)"
    and "owns holds_avail ((threads s)[w := NJ_woken]) Worker (job_available_mutex s)"
    using w b by (auto intro!: owns_update_same [OF q] owns_update_same [OF a])
  then show ?thesis using inv by (simp add: mutex_inv_def s' set_wpc_def)
qed

lemma mutex_inv_spurious_client:
  assumes inv: "mutex_inv s" and st: "spurious_client c s = Some s'"
  shows "mutex_inv s'"
proof -
  have c: "c < length (clients s)" and b: "wa_blocked (clients s ! c)"
    and s': "s' = set_cpc c (wa_wake (clients s ! c)) s"
    using st by (auto simp: spurious_client_def split: if_splits)
  have cq: "owns holds_queue_c (clients s) Client (queue_mutex s)"
    using inv by (simp add: mutex_inv_def)
  have "owns holds_queue_c ((clients s)[c := wa_wake (clients s ! c)]) Client (queue_mutex s)"
    using c by (auto intro!: owns_update_same [OF cq])
  then show ?thesis using inv by (simp add: mutex_inv_def s' set_cpc_def)
qed

lemma mutex_inv_init: "mutex_inv (ThreadPool N M)"
  by (simp add: mutex_inv_def owns_def ThreadPool_def)

lemma mutex_inv_step: "mutex_inv s \<Longrightarrow> step e s = Some s' \<Longrightarrow> mutex_inv s'"
  by (cases e)
     (auto intro: mutex_inv_worker mutex_inv_client mutex_inv_call
        mutex_inv_spurious_worker mutex_inv_spurious_client)

lemma reachable_mutex_inv: "reachable N M s \<Longrightarrow> mutex_inv s"
  by (induction rule: reachable.induct) (auto intro: mutex_inv_init mutex_inv_step)

subsection \<open>Frame properties of the actions\<close>

lemma length_filter_update:
  "i < length xs \<Longrightarrow>
     length (filter P (xs[i := y])) + (if P (xs ! i) then 1 else 0) =
     length (filter P xs) + (if P y then 1 else 0)"
proof (induction xs arbitrary: i)
  case Nil
  then show ?case by simp
next
  case (Cons x xs)
  then show ?case by (cases i) auto
qed

lemma in_set_update_other:
  assumes "i < length xs" "xs ! i \<noteq> a" "y \<noteq> a"
  shows "a \<in> set (xs[i := y]) \<longleftrightarrow> a \<in> set xs"
proof -
  have "a \<in> set (xs[i := y]) \<longleftrightarrow> (\<exists>j < length xs. (xs[i := y]) ! j = a)"
    by (simp add: in_set_conv_nth)
  also have "\<dots> \<longleftrightarrow> (\<exists>j < length xs. xs ! j = a)"
    using assms by (metis nth_list_update_eq nth_list_update_neq)
  also have "\<dots> \<longleftrightarrow> a \<in> set xs"
    by (simp add: in_set_conv_nth)
  finally show ?thesis .
qed

text \<open>What a worker's action leaves alone.\<close>

lemma worker_step_frame:
  assumes "worker_step w k s = Some s'"
  shows "ThreadCount s' = ThreadCount s" "joined s' = joined s" "bailout s' = bailout s"
    "finished s' = finished s" "submitted s' = submitted s"
    "threads s' = (threads s)[w := threads s' ! w]"
    "length (threads s') = length (threads s)"
    "length (clients s') = length (clients s)"
  using assms unfolding worker_step_unfold set_wpc_def notify_one_wait_def set_cpc_def
  by (cases "threads s ! w"; auto split: if_splits list.splits)+

lemma client_step_frame:
  assumes "client_step c k s = Some s'"
  shows "ThreadCount s' = ThreadCount s" "length (joined s') = length (joined s)"
    "dequeued s' = dequeued s" "ran s' = ran s"
    "clients s' = (clients s)[c := clients s' ! c]"
    "length (clients s') = length (clients s)"
    "length (threads s') = length (threads s)"
  using assms unfolding client_step_unfold set_wpc_def notify_one_job_available_def set_cpc_def
    notify_all_job_available_def
  by (cases "clients s ! c"; auto split: if_splits list.splits)+

lemma size_inv_init: "size_inv N M (ThreadPool N M)"
  by (simp add: size_inv_def ThreadPool_def)

lemma size_inv_step:
  assumes "size_inv N M s" "step e s = Some s'"
  shows "size_inv N M s'"
proof (cases e)
  case (Call c f)
  then show ?thesis using assms
    by (auto simp: call_step_def size_inv_def set_cpc_def split: if_splits)
next
  case (CStep c k)
  then have "client_step c k s = Some s'" using assms by simp
  from client_step_frame [OF this] show ?thesis
    using assms(1) by (simp add: size_inv_def)
next
  case (WStep w k)
  then have "worker_step w k s = Some s'" using assms by simp
  from worker_step_frame [OF this] show ?thesis
    using assms(1) by (simp add: size_inv_def)
next
  case (WakeW w)
  then show ?thesis using assms
    by (auto simp: spurious_worker_def size_inv_def set_wpc_def split: if_splits)
next
  case (WakeC c)
  then show ?thesis using assms
    by (auto simp: spurious_client_def size_inv_def set_cpc_def split: if_splits)
qed

lemma reachable_size_inv: "reachable N M s \<Longrightarrow> size_inv N M s"
  by (induction rule: reachable.induct) (auto intro: size_inv_init size_inv_step)

subsection \<open>The queue is first in, first out\<close>

lemma fifo_inv_step:
  assumes "fifo_inv s" "step e s = Some s'"
  shows "fifo_inv s'"
proof (cases e)
  case (Call c f)
  then show ?thesis using assms
    by (auto simp: call_step_def fifo_inv_def set_cpc_def split: if_splits)
next
  case (CStep c k)
  then show ?thesis using assms
    unfolding fifo_inv_def
    by (cases "clients s ! c")
       (auto simp: client_step_unfold set_cpc_def set_wpc_def notify_one_job_available_def
          notify_all_job_available_def split: if_splits)
next
  case (WStep w k)
  then show ?thesis using assms
    unfolding fifo_inv_def
    by (cases "threads s ! w")
       (auto simp: worker_step_unfold set_cpc_def set_wpc_def notify_one_wait_def
          split: if_splits list.splits)
next
  case (WakeW w)
  then show ?thesis using assms
    by (auto simp: spurious_worker_def fifo_inv_def set_wpc_def split: if_splits)
next
  case (WakeC c)
  then show ?thesis using assms
    by (auto simp: spurious_client_def fifo_inv_def set_cpc_def split: if_splits)
qed

lemma fifo_inv_init: "fifo_inv (ThreadPool N M)"
  by (simp add: fifo_inv_def ThreadPool_def)

lemma reachable_fifo_inv: "reachable N M s \<Longrightarrow> fifo_inv s"
  by (induction rule: reachable.induct) (auto intro: fifo_inv_step fifo_inv_init)

subsection \<open>No fetch from an empty queue\<close>

lemma fetch_ok_free: "\<not> holds_avail p \<Longrightarrow> fetch_ok p q b"
  by (cases p) auto

lemma fetch_ok_mono:
  "fetch_ok p q b \<Longrightarrow> (b \<Longrightarrow> b') \<Longrightarrow> fetch_ok p (q @ r) b'"
  by (cases p) auto

lemma worker_step_queue:
  assumes "worker_step w k s = Some s'"
  shows "queue s' = queue s \<or> holds_avail (threads s ! w)"
  using assms unfolding worker_step_unfold set_wpc_def notify_one_wait_def set_cpc_def
  by (cases "threads s ! w") (auto split: if_splits list.splits)

lemma worker_step_fetch_self:
  assumes "worker_step w k s = Some s'" "fetch_ok (threads s ! w) (queue s) (bailout s)"
  shows "fetch_ok (threads s' ! w) (queue s') (bailout s')"
  using assms unfolding worker_step_unfold set_wpc_def notify_one_wait_def set_cpc_def queue_size_def
  by (cases "threads s ! w") (auto split: if_splits list.splits)

lemma fetch_inv_worker:
  assumes m: "mutex_inv s" and f: "fetch_inv s" and st: "worker_step w k s = Some s'"
  shows "fetch_inv s'"
  unfolding fetch_inv_def
proof (intro allI impI)
  fix i assume "i < length (threads s')"
  then have i: "i < length (threads s)" using worker_step_frame(7) [OF st] by simp
  have w: "w < length (threads s)" using st by (rule worker_step_less)
  have a: "owns holds_avail (threads s) Worker (job_available_mutex s)"
    using m by (simp add: mutex_inv_def)
  show "fetch_ok (threads s' ! i) (queue s') (bailout s')"
  proof (cases "i = w")
    case True
    then show ?thesis using worker_step_fetch_self [OF st] f w by (simp add: fetch_inv_def)
  next
    case False
    then have same: "threads s' ! i = threads s ! i"
      using worker_step_frame(6) [OF st] by (metis nth_list_update_neq)
    show ?thesis
    proof (cases "queue s' = queue s")
      case True
      then show ?thesis using f i same worker_step_frame(3) [OF st] by (simp add: fetch_inv_def)
    next
      case q: False
      then have "holds_avail (threads s ! w)" using worker_step_queue [OF st] by simp
      then have "job_available_mutex s = Some (Worker w)" using a w by (simp add: owns_def)
      then have "\<not> holds_avail (threads s ! i)" using a i False by (simp add: owns_def)
      then show ?thesis using same by (simp add: fetch_ok_free)
    qed
  qed
qed

lemma client_step_threads:
  assumes "client_step c k s = Some s'" "i < length (threads s)"
  shows "threads s' ! i = threads s ! i \<or> \<not> holds_avail (threads s' ! i)"
  using assms unfolding client_step_unfold set_wpc_def notify_one_job_available_def set_cpc_def
    notify_all_job_available_def
  by (cases "clients s ! c"; cases "threads s ! i")
     (auto split: if_splits simp: nth_list_update)

lemma client_step_queue:
  assumes "client_step c k s = Some s'"
  shows "(\<exists>r. queue s' = queue s @ r) \<and> (bailout s \<longrightarrow> bailout s')"
  using assms unfolding client_step_unfold set_wpc_def notify_one_job_available_def set_cpc_def
    notify_all_job_available_def
  by (cases "clients s ! c") (auto split: if_splits)

lemma fetch_inv_client:
  assumes f: "fetch_inv s" and st: "client_step c k s = Some s'"
  shows "fetch_inv s'"
  unfolding fetch_inv_def
proof (intro allI impI)
  fix i assume "i < length (threads s')"
  then have i: "i < length (threads s)" using client_step_frame(7) [OF st] by simp
  from client_step_queue [OF st] obtain r where r: "queue s' = queue s @ r"
    and b: "bailout s \<longrightarrow> bailout s'" by blast
  have "fetch_ok (threads s ! i) (queue s') (bailout s')"
    using f i b unfolding r fetch_inv_def by (auto intro: fetch_ok_mono)
  then show "fetch_ok (threads s' ! i) (queue s') (bailout s')"
    using client_step_threads [OF st i] by (auto simp: fetch_ok_free)
qed

lemma fetch_inv_init: "fetch_inv (ThreadPool N M)"
  by (simp add: fetch_inv_def ThreadPool_def)

lemma fetch_inv_step:
  assumes "mutex_inv s" "fetch_inv s" "step e s = Some s'"
  shows "fetch_inv s'"
proof (cases e)
  case (Call c f)
  then show ?thesis using assms
    by (auto simp: call_step_def fetch_inv_def set_cpc_def split: if_splits)
next
  case (CStep c k)
  then show ?thesis using assms fetch_inv_client by simp
next
  case (WStep w k)
  then show ?thesis using assms fetch_inv_worker by simp
next
  case (WakeW w)
  then show ?thesis using assms
    by (auto simp: spurious_worker_def fetch_inv_def set_wpc_def nth_list_update split: if_splits)
next
  case (WakeC c)
  then show ?thesis using assms
    by (auto simp: spurious_client_def fetch_inv_def set_cpc_def split: if_splits)
qed

lemma reachable_fetch_inv: "reachable N M s \<Longrightarrow> fetch_inv s"
proof (induction rule: reachable.induct)
  case reachable_init
  then show ?case by (rule fetch_inv_init)
next
  case (reachable_step s e s')
  then show ?case using fetch_inv_step reachable_mutex_inv by blast
qed

text \<open>No worker ever calls \<open>front\<close> or \<open>pop_front\<close> on an empty queue.\<close>

lemma no_undefined_fetch:
  assumes "reachable N M s" "w < N"
  shows "threads s ! w \<noteq> W_undefined"
proof -
  have "length (threads s) = N" using reachable_size_inv [OF assms(1)] by (simp add: size_inv_def)
  then have "fetch_ok (threads s ! w) (queue s) (bailout s)"
    using reachable_fetch_inv [OF assms(1)] assms(2) by (simp add: fetch_inv_def)
  then show ?thesis by auto
qed

subsection \<open>The counter accounts for the queued and the fetched jobs\<close>

lemma counted_nj_wake [simp]: "counted (nj_wake p) = counted p"
  by (cases p) auto

lemma counted_comp_wake [simp]: "counted \<circ> nj_wake = counted"
  by (rule ext) simp

lemma executing_update:
  assumes "threads s' = (threads s)[w := p]" "w < length (threads s)"
  shows "executing s' + (if counted (threads s ! w) then 1 else 0) =
         executing s + (if counted p then 1 else 0)"
  using length_filter_update [OF assms(2), of counted p] assms(1) by (simp add: executing_def)

lemma AJ_inc_excluded:
  assumes "owns holds_queue_c cs Client m" "c < length cs" "holds_queue_c (cs ! c)" "p \<noteq> AJ_inc"
  shows "AJ_inc \<notin> set (cs[c := p])"
proof
  assume "AJ_inc \<in> set (cs[c := p])"
  then obtain j where j: "j < length cs" "cs[c := p] ! j = AJ_inc"
    by (auto simp: in_set_conv_nth)
  then have "j \<noteq> c" using assms(2,4) by auto
  then have "cs ! j = AJ_inc" using j by simp
  then have "holds_queue_c (cs ! j)" by simp
  then have "m = Some (Client j)" using assms(1) j(1) by (rule owns_holder [rotated 2])
  moreover have "m = Some (Client c)" using assms(1-3) by (rule owns_holder)
  ultimately show False using \<open>j \<noteq> c\<close> by simp
qed

lemma AJ_inc_excluded_worker:
  assumes "owns holds_queue_c cs Client (Some (Worker w))"
  shows "AJ_inc \<notin> set cs"
proof
  assume "AJ_inc \<in> set cs"
  then obtain j where j: "j < length cs" "cs ! j = AJ_inc"
    by (auto simp: in_set_conv_nth)
  then have "holds_queue_c (cs ! j)" by simp
  from owns_holder [OF assms j(1) this] show False by simp
qed

lemma worker_step_inflight:
  assumes "worker_step w k s = Some s'"
  shows "inflight s' = inflight s"
proof (cases "threads s ! w = T_notify")
  case True
  have *: "wa_blocked p \<Longrightarrow> p \<noteq> AJ_inc \<and> wa_wake p \<noteq> AJ_inc" for p by (cases p) auto
  show ?thesis
    using assms True unfolding worker_step_unfold set_wpc_def notify_one_wait_def set_cpc_def inflight_def
    by (auto split: if_splits simp: in_set_update_other *)
next
  case False
  then have "clients s' = clients s"
    using assms unfolding worker_step_unfold set_wpc_def
    by (cases "threads s ! w") (auto split: if_splits list.splits)
  then show ?thesis by (simp add: inflight_def)
qed

text \<open>The effect of a worker's action on the counter and on the length of the queue.\<close>

lemma worker_step_counter:
  assumes "worker_step w k s = Some s'" "fetch_ok (threads s ! w) (queue s) (bailout s)"
  shows "jobs_left s' + of_nat (length (queue s)) + (if counted (threads s ! w) then 1 else 0) =
         jobs_left s + of_nat (length (queue s')) + (if counted (threads s' ! w) then 1 else 0)"
    and "length (queue s') = length (queue s) \<or> holds_queue_w (threads s ! w)"
  using assms unfolding worker_step_unfold set_wpc_def notify_one_wait_def set_cpc_def
  by (cases "threads s ! w"; auto split: if_splits list.splits)+

lemma counter_inv_worker:
  assumes m: "mutex_inv s" and f: "fetch_inv s" and ci: "counter_inv s"
    and st: "worker_step w k s = Some s'"
  shows "counter_inv s'"
proof -
  have w: "w < length (threads s)" using st by (rule worker_step_less)
  have fo: "fetch_ok (threads s ! w) (queue s) (bailout s)" using f w by (simp add: fetch_inv_def)
  note c = worker_step_counter [OF st fo]
  have e: "executing s' + (if counted (threads s ! w) then 1 else 0) =
         executing s + (if counted (threads s' ! w) then 1 else 0)"
    using executing_update [OF worker_step_frame(6) [OF st] w] .
  have i: "inflight s' = inflight s" using st by (rule worker_step_inflight)
  define Q Q' E E' :: "32 word" where "Q = of_nat (length (queue s))"
    and "Q' = of_nat (length (queue s'))" and "E = of_nat (executing s)"
    and "E' = of_nat (executing s')"
  define O' N' :: "32 word" where "O' = (if counted (threads s ! w) then 1 else 0)"
    and "N' = (if counted (threads s' ! w) then 1 else 0)"
  have c1: "jobs_left s' + Q + O' = jobs_left s + Q' + N'"
    using c(1) by (simp add: Q_def Q'_def O'_def N'_def)
  have e1: "E' + O' = E + N'"
    using arg_cong [OF e, of "of_nat :: nat \<Rightarrow> 32 word"]
    by (simp add: E_def E'_def O'_def N'_def split: if_splits)
  have c0: "jobs_left s + of_nat (inflight s) = Q + E"
    using ci by (simp add: counter_inv_def Q_def E_def)
  have "jobs_left s' + of_nat (inflight s') + (Q + O') = (jobs_left s' + Q + O') + of_nat (inflight s)"
    by (simp add: i)
  also have "\<dots> = (jobs_left s + of_nat (inflight s)) + Q' + N'"
    by (simp add: c1)
  also have "\<dots> = Q' + (E + N') + Q"
    by (simp add: c0)
  also have "\<dots> = (Q' + E') + (Q + O')"
    by (simp add: e1 [symmetric])
  finally have 1: "jobs_left s' + of_nat (inflight s') = of_nat (length (queue s') + executing s')"
    by (simp add: Q'_def E'_def)
  have 2: "inflight s' \<le> length (queue s')"
  proof (cases "length (queue s') = length (queue s)")
    case True
    then show ?thesis using ci i by (simp add: counter_inv_def)
  next
    case False
    then have "holds_queue_w (threads s ! w)" using c(2) by simp
    then have "queue_mutex s = Some (Worker w)" using m w by (simp add: mutex_inv_def owns_def)
    then have "owns holds_queue_c (clients s) Client (Some (Worker w))"
      using m by (simp add: mutex_inv_def)
    then have "AJ_inc \<notin> set (clients s)" by (rule AJ_inc_excluded_worker)
    then show ?thesis using i by (simp add: inflight_def)
  qed
  show ?thesis using 1 2 by (simp add: counter_inv_def)
qed

lemma client_step_counter_frame:
  assumes "client_step c k s = Some s'" "clients s ! c \<noteq> AJ_inc" "\<And>j. clients s ! c \<noteq> AJ_emplace j"
  shows "jobs_left s' = jobs_left s" "queue s' = queue s" "executing s' = executing s"
    "clients s' ! c \<noteq> AJ_inc"
proof -
  have c: "c < length (clients s)" using assms(1) by (rule client_step_less)
  show "jobs_left s' = jobs_left s" "queue s' = queue s" "clients s' ! c \<noteq> AJ_inc"
    using assms c unfolding client_step_unfold set_wpc_def notify_one_job_available_def set_cpc_def
      notify_all_job_available_def wa_return_def
    by (cases "clients s ! c"; auto split: if_splits)+
  show "executing s' = executing s"
  proof (cases "clients s ! c = AJ_notify")
    case True
    then show ?thesis
      using assms(1) c length_filter_update [of k "threads s" counted NJ_woken]
      unfolding client_step_unfold set_wpc_def notify_one_job_available_def set_cpc_def executing_def
      by (auto split: if_splits)
  next
    case False
    then show ?thesis
      using assms c unfolding client_step_unfold set_cpc_def notify_all_job_available_def executing_def
      by (cases "clients s ! c") (auto split: if_splits)
  qed
qed

lemma counter_inv_client:
  assumes m: "mutex_inv s" and ci: "counter_inv s" and st: "client_step c k s = Some s'"
  shows "counter_inv s'"
proof -
  have c: "c < length (clients s)" using st by (rule client_step_less)
  have o: "owns holds_queue_c (clients s) Client (queue_mutex s)"
    using m by (simp add: mutex_inv_def)
  consider (emplace) j where "clients s ! c = AJ_emplace j" | (inc) "clients s ! c = AJ_inc"
    | (other) "clients s ! c \<noteq> AJ_inc" "\<And>j. clients s ! c \<noteq> AJ_emplace j"
    by blast
  then show ?thesis
  proof cases
    case emplace
    then have s': "s' = set_cpc c AJ_inc (s\<lparr>queue := queue s @ [j], submitted := submitted s @ [j]\<rparr>)"
      using st c by (simp add: client_step_unfold)
    have "AJ_inc \<notin> set ((clients s)[c := clients s ! c])"
      using o c emplace by (intro AJ_inc_excluded) auto
    then have 0: "inflight s = 0" by (simp add: inflight_def)
    have "AJ_inc \<in> set ((clients s)[c := AJ_inc])" using c by (simp add: set_update_memI)
    then have 1: "inflight s' = 1" by (simp add: inflight_def s' set_cpc_def)
    show ?thesis using ci 0 1 by (simp add: counter_inv_def s' set_cpc_def executing_def)
  next
    case inc
    then have s': "s' = set_cpc c AJ_notify (s\<lparr>jobs_left := jobs_left s + 1\<rparr>)"
      using st c by (simp add: client_step_unfold)
    have "AJ_inc \<in> set (clients s)" using c inc by (metis nth_mem)
    then have 1: "inflight s = 1" by (simp add: inflight_def)
    have "AJ_inc \<notin> set ((clients s)[c := AJ_notify])"
      using o c inc by (intro AJ_inc_excluded) auto
    then have 0: "inflight s' = 0" by (simp add: inflight_def s' set_cpc_def)
    show ?thesis using ci 0 1 by (simp add: counter_inv_def s' set_cpc_def executing_def)
  next
    case other
    note fr = client_step_counter_frame [OF st other]
    have "clients s' = (clients s)[c := clients s' ! c]" using st by (rule client_step_frame)
    then have "(AJ_inc \<in> set (clients s')) = (AJ_inc \<in> set (clients s))"
      using in_set_update_other [OF c other(1) fr(4)] by simp
    then have "inflight s' = inflight s" by (simp add: inflight_def)
    then show ?thesis using ci fr by (simp add: counter_inv_def)
  qed
qed

lemma counter_inv_init: "counter_inv (ThreadPool N M)"
  by (simp add: counter_inv_def ThreadPool_def inflight_def executing_def)

lemma counter_inv_step:
  assumes "mutex_inv s" "fetch_inv s" "counter_inv s" "step e s = Some s'"
  shows "counter_inv s'"
proof (cases e)
  case (Call c f)
  then have c: "c < length (clients s)" and o: "outside (clients s ! c)"
    and s': "s' = set_cpc c (entry f) s"
    using assms(4) by (auto simp: call_step_def split: if_splits)
  have "clients s ! c \<noteq> AJ_inc" using o by auto
  moreover have "entry f \<noteq> AJ_inc" by (cases f) (simp_all add: entry_def)
  ultimately have "(AJ_inc \<in> set ((clients s)[c := entry f])) = (AJ_inc \<in> set (clients s))"
    using c by (intro in_set_update_other)
  then show ?thesis using assms(3)
    by (simp add: counter_inv_def s' set_cpc_def inflight_def executing_def)
next
  case (CStep c k)
  then show ?thesis using assms counter_inv_client by simp
next
  case (WStep w k)
  then show ?thesis using assms counter_inv_worker by simp
next
  case (WakeW w)
  then have w: "w < length (threads s)" and b: "threads s ! w = NJ_blocked"
    and s': "s' = set_wpc w NJ_woken s"
    using assms(4) by (auto simp: spurious_worker_def split: if_splits)
  have "executing s' = executing s"
    using length_filter_update [OF w, of counted NJ_woken] b
    by (simp add: executing_def s' set_wpc_def)
  then show ?thesis using assms(3)
    by (simp add: counter_inv_def s' set_wpc_def inflight_def)
next
  case (WakeC c)
  then have c: "c < length (clients s)" and b: "wa_blocked (clients s ! c)"
    and s': "s' = set_cpc c (wa_wake (clients s ! c)) s"
    using assms(4) by (auto simp: spurious_client_def split: if_splits)
  have "clients s ! c \<noteq> AJ_inc" "wa_wake (clients s ! c) \<noteq> AJ_inc"
    using b by (cases "clients s ! c"; auto)+
  then have "(AJ_inc \<in> set ((clients s)[c := wa_wake (clients s ! c)])) = (AJ_inc \<in> set (clients s))"
    using c by (intro in_set_update_other)
  then show ?thesis using assms(3)
    by (simp add: counter_inv_def s' set_cpc_def inflight_def executing_def)
qed

lemma reachable_counter_inv: "reachable N M s \<Longrightarrow> counter_inv s"
proof (induction rule: reachable.induct)
  case reachable_init
  then show ?case by (rule counter_inv_init)
next
  case (reachable_step s e s')
  then show ?case
    using counter_inv_step reachable_mutex_inv reachable_fetch_inv by blast
qed

lemma sint_of_nat_small: "n < 2 ^ 31 \<Longrightarrow> sint (of_nat n :: 32 word) = int n"
  by (simp add: signed_of_nat signed_take_bit_int_eq_self)

lemma counter_outstanding:
  assumes "counter_inv s"
  shows "jobs_left s = of_nat (outstanding s)"
proof -
  have "inflight s \<le> length (queue s) + executing s" using assms by (simp add: counter_inv_def)
  then have "(of_nat (outstanding s) :: 32 word) = of_nat (length (queue s) + executing s) - of_nat (inflight s)"
    unfolding outstanding_def by (rule of_nat_diff)
  also have "\<dots> = jobs_left s" using assms by (simp add: counter_inv_def algebra_simps)
  finally show ?thesis by simp
qed

lemma run_append:
  "run (es @ fs) s = (case run es s of None \<Rightarrow> None | Some s' \<Rightarrow> run fs s')"
  by (induction es arbitrary: s) (auto split: option.splits)


lemma AddJob_run:
  assumes "c < length (clients s)" "outside (clients s ! c)" "queue_mutex s = None"
    and "notify_one_job_available k s = Some s1"
  shows "run (AddJob_events c j k) s =
     Some (s\<lparr>threads := threads s1, queue := queue s @ [j], jobs_left := jobs_left s + 1,
            clients := (clients s)[c := Idle], submitted := submitted s @ [j]\<rparr>)"
  using assms
  by (auto simp: AddJob_events_def numeral_eq_Suc call_step_def client_step_unfold set_cpc_def
      entry_def notify_one_job_available_def set_wpc_def split: if_splits)

lemma AddJob_repeat:
  assumes "c < length (clients s)" "clients s ! c = Idle" "queue_mutex s = None"
    and "NJ_blocked \<notin> set (threads s)"
  shows "run (concat (replicate n (AddJob_events c j k))) s =
     Some (s\<lparr>queue := queue s @ replicate n j, jobs_left := jobs_left s + of_nat n,
            submitted := submitted s @ replicate n j\<rparr>)"
  using assms
proof (induction n arbitrary: s)
  case 0
  then show ?case by simp
next
  case (Suc n)
  define s1 where "s1 = s\<lparr>queue := queue s @ [j], jobs_left := jobs_left s + 1,
            submitted := submitted s @ [j]\<rparr>"
  have "\<not> (k < length (threads s) \<and> threads s ! k = NJ_blocked)"
    using Suc.prems(4) by (metis nth_mem)
  then have n: "notify_one_job_available k s = Some s"
    using Suc.prems(4) by (auto simp: notify_one_job_available_def)
  have 3: "(clients s)[c := Idle] = clients s"
    using Suc.prems by (metis list_update_id)
  have "run (AddJob_events c j k) s =
      Some (s\<lparr>threads := threads s, queue := queue s @ [j], jobs_left := jobs_left s + 1,
            clients := (clients s)[c := Idle], submitted := submitted s @ [j]\<rparr>)"
    using Suc.prems by (intro AddJob_run [OF _ _ _ n]) auto
  then have 1: "run (AddJob_events c j k) s = Some s1"
    by (simp add: 3 s1_def)
  have 2: "run (concat (replicate n (AddJob_events c j k))) s1 =
     Some (s1\<lparr>queue := queue s1 @ replicate n j, jobs_left := jobs_left s1 + of_nat n,
            submitted := submitted s1 @ replicate n j\<rparr>)"
    using Suc.prems by (intro Suc.IH) (auto simp: s1_def)
  show ?case
    by (simp add: run_append 1 2) (simp add: s1_def add.assoc)
qed

subsection \<open>The order of the shutdown\<close>

lemma joined_before_le: "joined_before p n \<le> n"
  by (cases p) auto

lemma client_ok_mono:
  assumes ok: "client_ok s p" and b: "bailout s \<longrightarrow> bailout s'"
    and n: "ThreadCount s' = ThreadCount s"
    and j: "\<And>i. i < ThreadCount s \<Longrightarrow> joined s ! i \<Longrightarrow> joined s' ! i"
  shows "client_ok s' p"
  unfolding client_ok_def
proof (intro conjI allI impI)
  assume "past_raise p"
  then show "bailout s'" using ok b by (simp add: client_ok_def)
next
  fix i assume i: "i < joined_before p (ThreadCount s')"
  then have "i < ThreadCount s" using joined_before_le [of p "ThreadCount s"] n by simp
  moreover have "joined s ! i" using ok i n by (simp add: client_ok_def)
  ultimately show "joined s' ! i" by (rule j)
qed

lemma client_step_join_frame:
  assumes "client_step c k s = Some s'"
  shows "bailout s \<longrightarrow> bailout s'" "finished s \<longrightarrow> finished s'"
    "length (joined s') = length (joined s)"
  using assms unfolding client_step_unfold set_cpc_def set_wpc_def notify_one_job_available_def
      notify_all_job_available_def
  by (cases "clients s ! c"; simp split: if_splits; auto)+

lemma client_step_joined:
  assumes "client_step c k s = Some s'"
  shows "joined s' = joined s \<or>
    (\<exists>i. clients s ! c = JA_join i \<and> threads s ! i = T_exit \<and> joined s' = (joined s)[i := True])"
  using assms unfolding client_step_unfold set_cpc_def set_wpc_def notify_one_job_available_def
      notify_all_job_available_def
  by (cases "clients s ! c"; simp split: if_splits; auto)

lemma client_step_joined_mono:
  assumes "client_step c k s = Some s'" "i < length (joined s)" "joined s ! i"
  shows "joined s' ! i"
  using client_step_joined [OF assms(1)] assms(2,3)
  by (metis nth_list_update_eq nth_list_update_neq)

lemma client_step_ok_self:
  assumes st: "client_step c k s = Some s'" and ok: "client_ok s (clients s ! c)"
    and len: "length (joined s) = ThreadCount s"
  shows "client_ok s' (clients s' ! c)"
proof -
  have c: "c < length (clients s)" using st by (rule client_step_less)
  consider (joinable) i where "clients s ! c = JA_joinable i"
    | (join) i where "clients s ! c = JA_join i"
    | (other) "\<And>i. clients s ! c \<noteq> JA_joinable i" "\<And>i. clients s ! c \<noteq> JA_join i"
    by blast
  then show ?thesis
  proof cases
    case joinable
    then have s': "s' = set_cpc c (if i < ThreadCount s
             then (if \<not> joined s ! i then JA_join i else JA_joinable (Suc i))
             else JA_finish) s"
      using st c by (simp add: client_step_unfold)
    have b: "bailout s" and j: "\<forall>k < min i (ThreadCount s). joined s ! k"
      using ok joinable by (simp_all add: client_ok_def)
    show ?thesis
      using c b j unfolding s' set_cpc_def client_ok_def
      by (auto simp: less_Suc_eq)
  next
    case join
    have b: "bailout s" and j: "\<forall>k < min i (ThreadCount s). joined s ! k"
      using ok join by (simp_all add: client_ok_def)
    show ?thesis
    proof (cases "joined s ! i")
      case True
      then have "s' = set_cpc c C_undefined s" using st c join by (simp add: client_step_unfold)
      then show ?thesis using c b by (simp add: set_cpc_def client_ok_def)
    next
      case False
      then have s': "s' = set_cpc c (JA_joinable (Suc i)) (s\<lparr>joined := (joined s)[i := True]\<rparr>)"
        using st c join by (auto simp: client_step_unfold split: if_splits)
      have "(joined s)[i := True] ! k" if "k < min (Suc i) (ThreadCount s)" for k
        using that j len by (cases "k = i") (auto simp: less_Suc_eq)
      then show ?thesis using c b unfolding s' set_cpc_def client_ok_def
        by simp
    qed
  next
    case other
    then show ?thesis
      using st ok c unfolding client_step_unfold set_cpc_def set_wpc_def notify_one_job_available_def
        notify_all_job_available_def wa_return_def client_ok_def
      by (cases "clients s ! c"; simp split: if_splits; auto)
  qed
qed

lemma list_ex_update:
  assumes "i < length xs" "P (xs ! i) \<longrightarrow> P y"
  shows "list_ex P xs \<longrightarrow> list_ex P (xs[i := y])"
proof
  assume "list_ex P xs"
  then obtain j where j: "j < length xs" "P (xs ! j)" by (auto simp: list_ex_iff in_set_conv_nth)
  then have "P (xs[i := y] ! j)" using assms by (cases "j = i") auto
  moreover have "j < length (xs[i := y])" using j(1) by simp
  ultimately show "list_ex P (xs[i := y])" unfolding list_ex_iff by (metis nth_mem)
qed

lemma client_step_past_raise:
  assumes "client_step c k s = Some s'"
  shows "past_raise (clients s ! c) \<longrightarrow> past_raise (clients s' ! c) \<or> finished s'"
    and "bailout s' \<longrightarrow> bailout s \<or> past_raise (clients s' ! c)"
proof -
  have c: "c < length (clients s)" using assms by (rule client_step_less)
  show "past_raise (clients s ! c) \<longrightarrow> past_raise (clients s' ! c) \<or> finished s'"
    and "bailout s' \<longrightarrow> bailout s \<or> past_raise (clients s' ! c)"
    using assms c unfolding client_step_unfold set_cpc_def set_wpc_def notify_one_job_available_def
        notify_all_job_available_def wa_return_def
    by (cases "clients s ! c"; simp split: if_splits; auto)+
qed

lemma client_step_exited:
  assumes "client_step c k s = Some s'" "threads s ! i = T_exit" "i < length (threads s)"
  shows "threads s' ! i = T_exit"
  using assms unfolding client_step_unfold set_cpc_def set_wpc_def notify_one_job_available_def
        notify_all_job_available_def
  by (cases "clients s ! c"; simp split: if_splits; auto simp: nth_list_update)

lemma join_inv_client:
  assumes sz: "size_inv N M s" and inv: "join_inv s" and st: "client_step c k s = Some s'"
  shows "join_inv s'"
proof -
  have c: "c < length (clients s)" using st by (rule client_step_less)
  have len: "length (joined s) = ThreadCount s" "length (threads s) = ThreadCount s"
    using sz by (simp_all add: size_inv_def)
  note fr = client_step_frame [OF st]
  note jf = client_step_join_frame [OF st]
  have jm: "joined s' ! i" if "i < ThreadCount s" "joined s ! i" for i
    using client_step_joined_mono [OF st _ that(2)] that(1) len by simp
  have A: "\<forall>d < length (clients s'). client_ok s' (clients s' ! d)"
  proof (intro allI impI)
    fix d assume "d < length (clients s')"
    then have d: "d < length (clients s)" using fr by simp
    show "client_ok s' (clients s' ! d)"
    proof (cases "d = c")
      case True
      then show ?thesis using client_step_ok_self [OF st _ len(1)] inv c by (simp add: join_inv_def)
    next
      case False
      then have "clients s' ! d = clients s ! d" using fr(5) by (metis nth_list_update_neq)
      moreover have "client_ok s (clients s ! d)" using inv d by (simp add: join_inv_def)
      then have "client_ok s' (clients s ! d)"
        using jf(1) fr(1) jm by (rule client_ok_mono)
      ultimately show ?thesis by simp
    qed
  qed
  have B: "\<forall>i < ThreadCount s'. joined s' ! i \<longrightarrow> threads s' ! i = T_exit"
  proof (intro allI impI)
    fix i assume i: "i < ThreadCount s'" and j: "joined s' ! i"
    then have i': "i < ThreadCount s" using fr by simp
    have "threads s ! i = T_exit"
    proof (cases "joined s ! i")
      case True
      then show ?thesis using inv i' by (simp add: join_inv_def)
    next
      case False
      then obtain i0 where "threads s ! i0 = T_exit" "joined s' = (joined s)[i0 := True]"
        using client_step_joined [OF st] j by auto
      then show ?thesis using False j by (cases "i0 = i") auto
    qed
    then show "threads s' ! i = T_exit" using client_step_exited [OF st] i' len by simp
  qed
  have C: "finished s' \<longrightarrow> bailout s' \<and> (\<forall>i < ThreadCount s'. joined s' ! i)"
  proof
    assume f: "finished s'"
    show "bailout s' \<and> (\<forall>i < ThreadCount s'. joined s' ! i)"
    proof (cases "finished s")
      case True
      then have "bailout s" "\<forall>i < ThreadCount s. joined s ! i"
        using inv by (simp_all add: join_inv_def)
      then show ?thesis using jf(1) fr(1) jm by simp
    next
      case False
      then have "clients s ! c = JA_finish"
        using st f c unfolding client_step_unfold set_cpc_def set_wpc_def notify_one_job_available_def
          notify_all_job_available_def
        by (cases "clients s ! c"; simp split: if_splits; auto)
      then have "client_ok s JA_finish" using inv c by (auto simp: join_inv_def)
      then have "bailout s" "\<forall>i < ThreadCount s. joined s ! i" by (simp_all add: client_ok_def)
      then show ?thesis using jf(1) fr(1) jm by simp
    qed
  qed
  have D: "bailout s' \<longrightarrow> finished s' \<or> list_ex past_raise (clients s')"
  proof
    assume b: "bailout s'"
    have c': "c < length (clients s')" using c fr by simp
    show "finished s' \<or> list_ex past_raise (clients s')"
    proof (cases "past_raise (clients s' ! c) \<or> finished s'")
      case True
      then show ?thesis using c' by (auto simp: list_ex_iff)
    next
      case False
      then have "bailout s" using client_step_past_raise(2) [OF st] b by simp
      then have "finished s \<or> list_ex past_raise (clients s)" using inv by (simp add: join_inv_def)
      moreover have "\<not> finished s" using False jf(2) by auto
      moreover have "\<not> past_raise (clients s ! c)"
        using client_step_past_raise(1) [OF st] False by auto
      ultimately have "list_ex past_raise ((clients s)[c := clients s' ! c])"
        using list_ex_update [of c "clients s" past_raise "clients s' ! c"] c by simp
      then show ?thesis using fr(5) by simp
    qed
  qed
  show ?thesis using A B C D by (simp add: join_inv_def)
qed

lemma wa_wake_join [simp]:
  "past_raise (wa_wake p) = past_raise p" "joined_before (wa_wake p) n = joined_before p n"
  by (cases p; simp)+

lemma client_ok_wa_wake [simp]: "client_ok s (wa_wake p) = client_ok s p"
  by (simp add: client_ok_def)

lemma worker_step_clients:
  assumes "worker_step w k s = Some s'"
  shows "clients s' = clients s \<or>
    (k < length (clients s) \<and> clients s' = (clients s)[k := wa_wake (clients s ! k)])"
  using assms unfolding worker_step_unfold set_wpc_def notify_one_wait_def set_cpc_def
  by (cases "threads s ! w"; simp split: if_splits list.splits; auto)

lemma list_ex_update_same:
  assumes "k < length cs" "P y = P (cs ! k)"
  shows "list_ex P (cs[k := y]) = list_ex P cs"
proof
  assume "list_ex P (cs[k := y])"
  then have "list_ex P ((cs[k := y])[k := cs ! k])"
    using list_ex_update [of k "cs[k := y]" P "cs ! k"] assms by simp
  then show "list_ex P cs" by simp
next
  assume "list_ex P cs"
  then show "list_ex P (cs[k := y])"
    using list_ex_update [of k cs P y] assms by simp
qed

lemma list_ex_wa_wake:
  "k < length cs \<Longrightarrow> list_ex past_raise (cs[k := wa_wake (cs ! k)]) = list_ex past_raise cs"
  by (rule list_ex_update_same) simp_all

lemma join_inv_worker:
  assumes inv: "join_inv s" and st: "worker_step w k s = Some s'"
  shows "join_inv s'"
proof -
  have w: "w < length (threads s)" using st by (rule worker_step_less)
  note fr = worker_step_frame [OF st]
  have ok: "client_ok s' p = client_ok s p" for p
    using fr by (simp add: client_ok_def)
  have A: "\<forall>d < length (clients s'). client_ok s' (clients s' ! d)"
  proof (intro allI impI)
    fix d assume "d < length (clients s')"
    then have d: "d < length (clients s)" using fr by simp
    then have "client_ok s (clients s ! d)" using inv by (simp add: join_inv_def)
    moreover have "clients s' ! d = clients s ! d \<or> clients s' ! d = wa_wake (clients s ! d)"
    proof (cases "clients s' = clients s")
      case True
      then show ?thesis by simp
    next
      case False
      then have k: "k < length (clients s)" "clients s' = (clients s)[k := wa_wake (clients s ! k)]"
        using worker_step_clients [OF st] by simp_all
      show ?thesis unfolding k(2) using k(1) by (cases "d = k") simp_all
    qed
    ultimately show "client_ok s' (clients s' ! d)" using ok by (metis client_ok_wa_wake)
  qed
  have B: "\<forall>i < ThreadCount s'. joined s' ! i \<longrightarrow> threads s' ! i = T_exit"
  proof (intro allI impI)
    fix i assume "i < ThreadCount s'" "joined s' ! i"
    then have e: "threads s ! i = T_exit" using inv fr by (simp add: join_inv_def)
    then have "i \<noteq> w" using st w by (auto simp: worker_step_unfold)
    then show "threads s' ! i = T_exit" using fr(6) e by (metis nth_list_update_neq)
  qed
  have "list_ex past_raise (clients s') = list_ex past_raise (clients s)"
  proof (cases "clients s' = clients s")
    case True
    then show ?thesis by simp
  next
    case False
    then have k: "k < length (clients s)" "clients s' = (clients s)[k := wa_wake (clients s ! k)]"
      using worker_step_clients [OF st] by simp_all
    show ?thesis unfolding k(2) using k(1) by (rule list_ex_wa_wake)
  qed
  then show ?thesis using inv A B fr(1-4) by (simp add: join_inv_def)
qed

lemma join_inv_init: "join_inv (ThreadPool N M)"
  by (simp add: join_inv_def ThreadPool_def client_ok_def)

lemma join_inv_step:
  assumes "size_inv N M s" "join_inv s" "step e s = Some s'"
  shows "join_inv s'"
proof (cases e)
  case (Call c f)
  then have c: "c < length (clients s)" and o: "outside (clients s ! c)"
    and s': "s' = set_cpc c (entry f) s"
    using assms(3) by (auto simp: call_step_def split: if_splits)
  have e: "\<not> past_raise (entry f)" "joined_before (entry f) (ThreadCount s) = 0"
    by (cases f; simp add: entry_def)+
  have o': "\<not> past_raise (clients s ! c)" using o by (cases "clients s ! c") auto
  have ok: "client_ok s' p = client_ok s p" for p by (simp add: client_ok_def s' set_cpc_def)
  have A: "\<forall>d < length (clients s'). client_ok s' (clients s' ! d)"
  proof (intro allI impI)
    fix d assume "d < length (clients s')"
    then have d: "d < length (clients s)" by (simp add: s' set_cpc_def)
    show "client_ok s' (clients s' ! d)"
    proof (cases "d = c")
      case True
      then show ?thesis using c e by (simp add: s' set_cpc_def client_ok_def)
    next
      case False
      then show ?thesis using assms(2) d ok by (simp add: s' set_cpc_def join_inv_def)
    qed
  qed
  have "list_ex past_raise ((clients s)[c := entry f]) = list_ex past_raise (clients s)"
    using c e o' by (intro list_ex_update_same) simp_all
  then show ?thesis using assms(2) A by (simp add: join_inv_def s' set_cpc_def)
next
  case (CStep c k)
  then show ?thesis using assms join_inv_client by simp
next
  case (WStep w k)
  then show ?thesis using assms join_inv_worker by simp
next
  case (WakeW w)
  then have w: "w < length (threads s)" and b: "threads s ! w = NJ_blocked"
    and s': "s' = set_wpc w NJ_woken s"
    using assms(3) by (auto simp: spurious_worker_def split: if_splits)
  have "client_ok s' p = client_ok s p" for p by (simp add: client_ok_def s' set_wpc_def)
  moreover have "threads s' ! i = T_exit" if "threads s ! i = T_exit" for i
    using that b by (cases "i = w") (auto simp: s' set_wpc_def)
  ultimately show ?thesis using assms(2) by (simp add: join_inv_def s' set_wpc_def)
next
  case (WakeC c)
  then have c: "c < length (clients s)"
    and s': "s' = set_cpc c (wa_wake (clients s ! c)) s"
    using assms(3) by (auto simp: spurious_client_def split: if_splits)
  have ok: "client_ok s' p = client_ok s p" for p by (simp add: client_ok_def s' set_cpc_def)
  have A: "\<forall>d < length (clients s'). client_ok s' (clients s' ! d)"
  proof (intro allI impI)
    fix d assume "d < length (clients s')"
    then have d: "d < length (clients s)" by (simp add: s' set_cpc_def)
    then have "client_ok s (clients s ! d)" using assms(2) by (simp add: join_inv_def)
    then show "client_ok s' (clients s' ! d)"
      using d c ok by (cases "d = c") (simp_all add: s' set_cpc_def)
  qed
  show ?thesis using assms(2) A list_ex_wa_wake [OF c] by (simp add: join_inv_def s' set_cpc_def)
qed

lemma reachable_join_inv: "reachable N M s \<Longrightarrow> join_inv s"
proof (induction rule: reachable.induct)
  case reachable_init
  then show ?case by (rule join_inv_init)
next
  case (reachable_step s e s')
  then show ?case using join_inv_step reachable_size_inv by blast
qed

subsection \<open>Every dequeued job is called\<close>

lemma sum_list_carried_update:
  "i < length ps \<Longrightarrow>
     sum_list (map carried (ps[i := p])) + carried (ps ! i) = sum_list (map carried ps) + carried p"
proof (induction ps arbitrary: i)
  case Nil
  then show ?case by simp
next
  case (Cons q ps)
  then show ?case by (cases i) (auto simp: ac_simps)
qed

lemma carried_nj_wake [simp]: "carried (nj_wake p) = carried p"
  by (cases p) auto

lemma carried_comp_wake [simp]: "carried \<circ> nj_wake = carried"
  by (rule ext) simp

text \<open>The effect of a worker's action on the logs of the dequeued and the called jobs.\<close>

lemma worker_step_logs:
  assumes "worker_step w k s = Some s'" "fetch_ok (threads s ! w) (queue s) (bailout s)"
  shows "mset (dequeued s') + mset (ran s) + carried (threads s ! w) \<subseteq>#
         mset (dequeued s) + mset (ran s') + carried (threads s' ! w)"
  using assms unfolding worker_step_unfold set_wpc_def notify_one_wait_def set_cpc_def
  by (cases "threads s ! w"; simp split: if_splits list.splits; auto)

lemma run_inv_worker:
  assumes f: "fetch_inv s" and inv: "run_inv s" and st: "worker_step w k s = Some s'"
  shows "run_inv s'"
proof -
  have w: "w < length (threads s)" using st by (rule worker_step_less)
  have fo: "fetch_ok (threads s ! w) (queue s) (bailout s)" using f w by (simp add: fetch_inv_def)
  define D D' R R' H H' O' N' where "D = mset (dequeued s)" and "D' = mset (dequeued s')"
    and "R = mset (ran s)" and "R' = mset (ran s')" and "H = in_hand s" and "H' = in_hand s'"
    and "O' = carried (threads s ! w)" and "N' = carried (threads s' ! w)"
  have 1: "D' + R + O' \<subseteq># D + R' + N'"
    using worker_step_logs [OF st fo] by (simp add: D_def D'_def R_def R'_def O'_def N'_def)
  have 2: "H' + O' = H + N'"
    using sum_list_carried_update [OF w, of "threads s' ! w"] worker_step_frame(6) [OF st]
    by (simp add: in_hand_def H_def H'_def O'_def N'_def)
  have 3: "D \<subseteq># R + H" using inv by (simp add: run_inv_def D_def R_def H_def)
  have "D' + (R + O') \<subseteq># D + R' + N'" using 1 by (simp add: ac_simps)
  also have "\<dots> \<subseteq># (R + H) + R' + N'" using 3 by (simp add: ac_simps)
  also have "\<dots> = (R' + H') + (R + O')" using 2 by (simp add: ac_simps)
  finally have "D' \<subseteq># R' + H'" by simp
  then show ?thesis by (simp add: run_inv_def D'_def R'_def H'_def)
qed

lemma client_step_in_hand:
  assumes "client_step c k s = Some s'"
  shows "in_hand s' = in_hand s"
proof (cases "clients s ! c = AJ_notify")
  case True
  then show ?thesis
    using assms sum_list_carried_update [of k "threads s" NJ_woken]
    unfolding client_step_unfold set_cpc_def set_wpc_def notify_one_job_available_def in_hand_def
    by (auto split: if_splits)
next
  case False
  then show ?thesis
    using assms unfolding client_step_unfold set_cpc_def notify_all_job_available_def in_hand_def
    by (cases "clients s ! c"; simp split: if_splits; auto)
qed

lemma run_inv_step:
  assumes "fetch_inv s" "run_inv s" "step e s = Some s'"
  shows "run_inv s'"
proof (cases e)
  case (Call c f)
  then show ?thesis using assms
    by (auto simp: call_step_def run_inv_def in_hand_def set_cpc_def split: if_splits)
next
  case (CStep c k)
  then have st: "client_step c k s = Some s'" using assms by simp
  show ?thesis
    using assms(2) client_step_in_hand [OF st] client_step_frame(3,4) [OF st]
    by (simp add: run_inv_def)
next
  case (WStep w k)
  then show ?thesis using assms run_inv_worker by simp
next
  case (WakeW w)
  then have w: "w < length (threads s)" and b: "threads s ! w = NJ_blocked"
    and s': "s' = set_wpc w NJ_woken s"
    using assms(3) by (auto simp: spurious_worker_def split: if_splits)
  have "in_hand s' = in_hand s"
    using sum_list_carried_update [OF w, of NJ_woken] b by (simp add: in_hand_def s' set_wpc_def)
  then show ?thesis using assms(2) by (simp add: run_inv_def s' set_wpc_def)
next
  case (WakeC c)
  then show ?thesis using assms
    by (auto simp: spurious_client_def run_inv_def in_hand_def set_cpc_def split: if_splits)
qed

lemma reachable_run_inv: "reachable N M s \<Longrightarrow> run_inv s"
proof (induction rule: reachable.induct)
  case reachable_init
  then show ?case by (simp add: run_inv_def ThreadPool_def)
next
  case (reachable_step s e s')
  then show ?case using run_inv_step reachable_fetch_inv by blast
qed

text \<open>When no worker accounts for a job, no worker has a job in hand.\<close>

lemma in_hand_empty:
  assumes "executing s = 0"
  shows "in_hand s = {#}"
proof -
  have "counted p \<or> carried p = {#}" for p by (cases p) auto
  moreover have "\<forall>p \<in> set (threads s). \<not> counted p"
    using assms by (simp add: executing_def filter_empty_conv)
  ultimately have "\<forall>p \<in> set (threads s). carried p = {#}" by blast
  moreover have "(\<forall>p \<in> set ps. carried p = {#}) \<Longrightarrow> sum_list (map carried ps) = {#}" for ps
    by (induction ps) auto
  ultimately show ?thesis unfolding in_hand_def by blast
qed

subsection \<open>Evaluating runs\<close>

lemmas step_defs =
  call_step_def client_step_unfold worker_step_unfold spurious_worker_def spurious_client_def
  set_cpc_def set_wpc_def entry_def wa_return_def queue_size_def
  notify_one_job_available_def notify_one_wait_def notify_all_job_available_def

lemma busy_run:
  "run (AddJob_events 0 (Callable 1) 0 @ replicate 8 (WStep 0 0)) (ThreadPool 1 1) =
   Some \<lparr>ThreadCount = 1, threads = [T_call (Callable 1)], joined = [False],
       queue = [], jobs_left = 1, bailout = False, finished = False,
       job_available_mutex = None, wait_mutex = None, queue_mutex = None,
       clients = [Idle], submitted = [Callable 1], dequeued = [Callable 1], ran = []\<rparr>"
  by (simp add: AddJob_events_def ThreadPool_def step_defs numeral_eq_Suc)

lemma JobsRemaining_run:
  assumes "c < length (clients s)" "outside (clients s ! c)" "queue_mutex s = None"
  shows "run (Call c CallJobsRemaining # replicate 3 (CStep c k)) s =
     Some (set_cpc c (Ret (of_nat (length (queue s)))) s)"
  using assms by (simp add: step_defs numeral_eq_Suc)

lemma step_jobs_left:
  assumes "step e s = Some s'"
  shows "jobs_left s' = jobs_left s + of_bool (increments e s) - of_bool (decrements e s)"
proof (cases e)
  case (Call c f)
  then show ?thesis using assms
    by (auto simp: call_step_def set_cpc_def increments_def decrements_def split: if_splits)
next
  case (CStep c k)
  then show ?thesis using assms
    by (cases "clients s ! c")
       (auto simp: step_defs increments_def decrements_def split: if_splits)
next
  case (WStep w k)
  then show ?thesis using assms
    by (cases "threads s ! w")
       (auto simp: step_defs increments_def decrements_def split: if_splits list.splits)
next
  case (WakeW w)
  then show ?thesis using assms
    by (auto simp: spurious_worker_def set_wpc_def increments_def decrements_def split: if_splits)
next
  case (WakeC c)
  then show ?thesis using assms
    by (auto simp: spurious_client_def set_cpc_def increments_def decrements_def split: if_splits)
qed

lemma busy_reachable:
  "reachable 1 1 \<lparr>ThreadCount = 1, threads = [T_call (Callable 1)], joined = [False],
       queue = [], jobs_left = 1, bailout = False, finished = False,
       job_available_mutex = None, wait_mutex = None, queue_mutex = None,
       clients = [Idle], submitted = [Callable 1], dequeued = [Callable 1], ran = []\<rparr>"
  using reachable_run [OF reachable_init busy_run] .


lemma AddJob_finished_indep:
  "run (AddJob_events c j k) (s\<lparr>finished := b\<rparr>) =
     map_option (\<lambda>t. t\<lparr>finished := b\<rparr>) (run (AddJob_events c j k) s)"
  by (auto simp: AddJob_events_def step_defs numeral_eq_Suc split: option.splits)

lemma step_finished: "step e s = Some s' \<Longrightarrow> finished s \<Longrightarrow> finished s'"
proof (cases e)
  case (CStep c k)
  assume "step e s = Some s'" "finished s"
  then show ?thesis using CStep client_step_join_frame(2) by auto
next
  case (WStep w k)
  assume "step e s = Some s'" "finished s"
  then show ?thesis using WStep worker_step_frame(4) by auto
qed (auto simp: step_defs split: if_splits)

lemma JoinAll_finished_run:
  assumes "finished s" "c < length (clients s)" "outside (clients s ! c)"
  shows "run [Call c (CallJoinAll b), CStep c k] s = Some (set_cpc c Idle s)"
  using assms by (simp add: step_defs)

lemma shutdown_run:
  "run (replicate 10 (WStep 0 0) @ Call 0 (CallJoinAll True) # replicate 5 (CStep 0 0) @
        replicate 15 (WStep 0 0) @ replicate 3 (CStep 0 0)) (ThreadPool 1 1) =
   Some \<lparr>ThreadCount = 1, threads = [T_exit], joined = [True],
       queue = [], jobs_left = 0, bailout = True, finished = True,
       job_available_mutex = None, wait_mutex = None, queue_mutex = None,
       clients = [Idle], submitted = [], dequeued = [], ran = [NoOp]\<rparr>"
  by (simp add: ThreadPool_def step_defs numeral_eq_Suc)

lemma flooded_run:
  "run (concat (replicate (2 ^ 31) (AddJob_events 0 (Callable 0) 0))) (ThreadPool 1 1) =
   Some \<lparr>ThreadCount = 1, threads = [T_while], joined = [False],
       queue = replicate (2 ^ 31) (Callable 0), jobs_left = 2147483648, bailout = False,
       finished = False, job_available_mutex = None, wait_mutex = None, queue_mutex = None,
       clients = [Idle], submitted = replicate (2 ^ 31) (Callable 0), dequeued = [], ran = []\<rparr>"
proof -
  have "run (concat (replicate (2 ^ 31) (AddJob_events 0 (Callable 0) 0))) (ThreadPool 1 1) =
    Some ((ThreadPool 1 1)\<lparr>queue := queue (ThreadPool 1 1) @ replicate (2 ^ 31) (Callable 0),
      jobs_left := jobs_left (ThreadPool 1 1) + of_nat (2 ^ 31),
      submitted := submitted (ThreadPool 1 1) @ replicate (2 ^ 31) (Callable 0)\<rparr>)"
    by (rule AddJob_repeat) (simp_all add: ThreadPool_def)
  then show ?thesis by (simp add: ThreadPool_def)
qed

lemma quiescent:
  assumes r: "reachable N M s" and z: "jobs_left s = 0" and b: "outstanding s < 2 ^ 31"
  shows "executing s = 0 \<and> length (queue s) = inflight s \<and>
     mset (take (length (submitted s) - inflight s) (submitted s)) \<subseteq># mset (ran s)"
proof -
  have ci: "counter_inv s" using r by (rule reachable_counter_inv)
  have "sint (jobs_left s) = int (outstanding s)"
    using counter_outstanding [OF ci] b by (simp add: sint_of_nat_small)
  then have o: "outstanding s = 0" using z by simp
  have i: "inflight s \<le> length (queue s)" using ci by (simp add: counter_inv_def)
  have i1: "inflight s \<le> 1" by (simp add: inflight_def)
  have e: "executing s = 0" and q: "length (queue s) = inflight s"
    using o i by (simp_all add: outstanding_def)
  have "mset (dequeued s) \<subseteq># mset (ran s)"
    using reachable_run_inv [OF r] in_hand_empty [OF e] by (simp add: run_inv_def)
  moreover have "submitted s = dequeued s @ queue s"
    using reachable_fifo_inv [OF r] by (simp add: fifo_inv_def)
  then have "take (length (submitted s) - inflight s) (submitted s) = dequeued s"
    using q by simp
  ultimately show ?thesis using e q by simp
qed

lemma nj_wake_not_blocked: "NJ_blocked \<notin> set (map nj_wake ps)"
proof -
  have "nj_wake p \<noteq> NJ_blocked" for p by (cases p) auto
  then show ?thesis by (metis (no_types) imageE list.set_map)
qed

text \<open>The control flow of a drain-first \<open>JoinAll\<close>, one action at a time.\<close>

lemma JoinAll_flow:
  assumes st: "client_step c k s = Some s'"
  shows "clients s ! c = JA_finished True \<and> \<not> finished s \<longrightarrow> clients s' ! c = WA_check True"
    and "clients s ! c = WA_check True \<longrightarrow>
          (if 0 < sint (jobs_left s) then clients s' ! c = WA_lock True else clients s' ! c = JA_bailout)"
    and "clients s ! c = WA_pred True \<longrightarrow>
          (if jobs_left s = 0 then clients s' ! c = WA_unlock True else clients s' ! c = WA_wait True)"
    and "clients s ! c = WA_unlock True \<longrightarrow> clients s' ! c = JA_bailout"
    and "bailout s' \<and> \<not> bailout s \<longrightarrow> clients s ! c = JA_bailout \<and> clients s' ! c = JA_notify"
    and "clients s ! c = JA_notify \<longrightarrow>
          clients s' ! c = JA_joinable 0 \<and> NJ_blocked \<notin> set (threads s')"
    and "finished s' \<and> \<not> finished s \<longrightarrow> clients s ! c = JA_finish"
proof -
  have c: "c < length (clients s)" using st by (rule client_step_less)
  show "clients s ! c = JA_finished True \<and> \<not> finished s \<longrightarrow> clients s' ! c = WA_check True"
    and "clients s ! c = WA_check True \<longrightarrow>
          (if 0 < sint (jobs_left s) then clients s' ! c = WA_lock True else clients s' ! c = JA_bailout)"
    and "clients s ! c = WA_pred True \<longrightarrow>
          (if jobs_left s = 0 then clients s' ! c = WA_unlock True else clients s' ! c = WA_wait True)"
    and "clients s ! c = WA_unlock True \<longrightarrow> clients s' ! c = JA_bailout"
    and "clients s ! c = JA_notify \<longrightarrow>
          clients s' ! c = JA_joinable 0 \<and> NJ_blocked \<notin> set (threads s')"
    using st c nj_wake_not_blocked
    by (auto simp: client_step_unfold set_cpc_def wa_return_def notify_all_job_available_def)
  show "bailout s' \<and> \<not> bailout s \<longrightarrow> clients s ! c = JA_bailout \<and> clients s' ! c = JA_notify"
    and "finished s' \<and> \<not> finished s \<longrightarrow> clients s ! c = JA_finish"
    using st c unfolding client_step_unfold set_cpc_def set_wpc_def notify_one_job_available_def
      notify_all_job_available_def
    by (cases "clients s ! c"; simp split: if_splits; auto)+
qed

lemma finalized_reachable:
  "reachable 1 1 \<lparr>ThreadCount = 1, threads = [T_exit], joined = [True],
       queue = [], jobs_left = 0, bailout = True, finished = True,
       job_available_mutex = None, wait_mutex = None, queue_mutex = None,
       clients = [Idle], submitted = [], dequeued = [], ran = [NoOp]\<rparr>"
  using reachable_run [OF reachable_init shutdown_run] .

text \<open>How a client gets out of \<open>WaitAll\<close>, and what it does at each line inside.\<close>

lemma WaitAll_entry:
  assumes st: "client_step c k s = Some s'"
  shows "clients s' ! c = WA_unlock r \<longrightarrow> clients s ! c = WA_pred r \<and> jobs_left s = 0"
    and "clients s' ! c = JA_bailout \<longrightarrow>
           clients s ! c = WA_unlock True \<or>
           clients s ! c = WA_check True \<and> \<not> 0 < sint (jobs_left s) \<or>
           clients s ! c = JA_finished False \<and> \<not> finished s"
    and "clients s ! c = WA_lock r \<longrightarrow> clients s' ! c = WA_pred r"
    and "clients s ! c = WA_wait r \<longrightarrow> clients s' ! c = WA_blocked r"
    and "clients s ! c = WA_woken r \<longrightarrow> clients s' ! c = WA_pred r"
    and "clients s ! c \<noteq> WA_blocked r"
proof -
  have c: "c < length (clients s)" using st by (rule client_step_less)
  show "clients s' ! c = WA_unlock r \<longrightarrow> clients s ! c = WA_pred r \<and> jobs_left s = 0"
    and "clients s' ! c = JA_bailout \<longrightarrow>
           clients s ! c = WA_unlock True \<or>
           clients s ! c = WA_check True \<and> \<not> 0 < sint (jobs_left s) \<or>
           clients s ! c = JA_finished False \<and> \<not> finished s"
    and "clients s ! c = WA_lock r \<longrightarrow> clients s' ! c = WA_pred r"
    and "clients s ! c = WA_wait r \<longrightarrow> clients s' ! c = WA_blocked r"
    and "clients s ! c = WA_woken r \<longrightarrow> clients s' ! c = WA_pred r"
    and "clients s ! c \<noteq> WA_blocked r"
    using st c unfolding client_step_unfold set_cpc_def set_wpc_def notify_one_job_available_def
      notify_all_job_available_def wa_return_def
    by (cases "clients s ! c"; simp split: if_splits; auto)+
qed

lemma wa_wake_keeps [simp]:
  "(wa_wake p = JA_bailout) = (p = JA_bailout)" "(wa_wake p = WA_unlock r) = (p = WA_unlock r)"
  by (cases p; simp)+

lemma entry_not_exit [simp]: "entry f \<noteq> JA_bailout" "entry f \<noteq> WA_unlock r"
  by (cases f; simp add: entry_def)+

text \<open>No action of another thread moves a client out of \<open>WaitAll\<close>.\<close>

lemma step_other_client:
  assumes st: "step e s = Some s'" and c: "c < length (clients s)"
    and p: "clients s' ! c = JA_bailout \<or> clients s' ! c = WA_unlock r"
    and n: "clients s' ! c \<noteq> clients s ! c"
  shows "\<exists>k. e = CStep c k"
proof (cases e)
  case (Call c' f)
  then have "clients s' = (clients s)[c' := entry f]" "c' < length (clients s)"
    using st by (auto simp: call_step_def set_cpc_def split: if_splits)
  then show ?thesis using p n c by (cases "c' = c") auto
next
  case (CStep c' k)
  then have "clients s' = (clients s)[c' := clients s' ! c']"
    using st client_step_frame(5) by simp
  then have "c' \<noteq> c \<longrightarrow> clients s' ! c = clients s ! c" by (metis nth_list_update_neq)
  then show ?thesis using CStep n by auto
next
  case (WStep w k)
  then have "clients s' = clients s \<or>
    (k < length (clients s) \<and> clients s' = (clients s)[k := wa_wake (clients s ! k)])"
    using st worker_step_clients by simp
  then have "clients s' ! c = clients s ! c \<or> clients s' ! c = wa_wake (clients s ! c)"
    using c by (cases "k = c") auto
  then show ?thesis using p n by auto
next
  case (WakeW w)
  then have "clients s' = clients s"
    using st by (auto simp: spurious_worker_def set_wpc_def split: if_splits)
  then show ?thesis using n by simp
next
  case (WakeC c')
  then have "clients s' = (clients s)[c' := wa_wake (clients s ! c')]"
    using st by (auto simp: spurious_client_def set_cpc_def split: if_splits)
  then have "clients s' ! c = clients s ! c \<or> clients s' ! c = wa_wake (clients s ! c)"
    using c by (cases "c' = c") auto
  then show ?thesis using p n by auto
qed

subsection \<open>Nobody holds \<open>queue_mutex\<close> for long\<close>

lemma owner_inv_step:
  assumes "owner_inv s" "step e s = Some s'"
  shows "owner_inv s'"
proof (cases e)
  case (Call c f)
  then show ?thesis using assms
    by (auto simp: call_step_def owner_inv_def set_cpc_def split: if_splits option.splits tid.splits)
next
  case (CStep c k)
  then have st: "client_step c k s = Some s'" using assms by simp
  have c: "c < length (clients s)" using st by (rule client_step_less)
  have "queue_mutex s' = queue_mutex s \<or> queue_mutex s' = None \<or> queue_mutex s' = Some (Client c)"
    using st unfolding client_step_unfold set_cpc_def set_wpc_def notify_one_job_available_def
      notify_all_job_available_def
    by (cases "clients s ! c"; simp split: if_splits; auto)
  then show ?thesis
    using assms(1) c client_step_frame(6,7) [OF st]
    by (auto simp: owner_inv_def split: option.splits tid.splits)
next
  case (WStep w k)
  then have st: "worker_step w k s = Some s'" using assms by simp
  have w: "w < length (threads s)" using st by (rule worker_step_less)
  have "queue_mutex s' = queue_mutex s \<or> queue_mutex s' = None \<or> queue_mutex s' = Some (Worker w)"
    using st unfolding worker_step_unfold set_cpc_def set_wpc_def notify_one_wait_def
    by (cases "threads s ! w"; simp split: if_splits list.splits; auto)
  then show ?thesis
    using assms(1) w worker_step_frame(7,8) [OF st]
    by (auto simp: owner_inv_def split: option.splits tid.splits)
next
  case (WakeW w)
  then show ?thesis using assms
    by (auto simp: spurious_worker_def owner_inv_def set_wpc_def split: if_splits option.splits tid.splits)
next
  case (WakeC c)
  then show ?thesis using assms
    by (auto simp: spurious_client_def owner_inv_def set_cpc_def split: if_splits option.splits tid.splits)
qed

lemma reachable_owner_inv: "reachable N M s \<Longrightarrow> owner_inv s"
proof (induction rule: reachable.induct)
  case reachable_init
  then show ?case by (simp add: owner_inv_def ThreadPool_def)
next
  case (reachable_step s e s')
  then show ?case using owner_inv_step by blast
qed

text \<open>A worker inside a critical section of \<open>queue_mutex\<close> reaches the end of the section
  by its own actions.\<close>

lemma worker_releases:
  assumes w: "w < length (threads s)" and h: "holds_queue_w (threads s ! w)"
    and f: "fetch_ok (threads s ! w) (queue s) (bailout s)"
  shows "\<exists>n \<le> 4. map_option queue_mutex (run (replicate n (WStep w k)) s) = Some None"
proof (cases "threads s ! w")
  case NJ_empty
  show ?thesis
  proof (cases "queue s")
    case Nil
    then have "map_option queue_mutex (run (replicate 2 (WStep w k)) s) = Some None"
      using w NJ_empty by (simp add: numeral_eq_Suc worker_step_unfold set_wpc_def)
    then show ?thesis by (intro exI [of _ 2]) simp
  next
    case (Cons j q)
    then have "map_option queue_mutex (run (replicate 4 (WStep w k)) s) = Some None"
      using w NJ_empty by (simp add: numeral_eq_Suc worker_step_unfold set_wpc_def)
    then show ?thesis by (intro exI [of _ 4]) simp
  qed
next
  case NJ_front
  then obtain j q where "queue s = j # q" using f by (cases "queue s") auto
  then have "map_option queue_mutex (run (replicate 3 (WStep w k)) s) = Some None"
    using w NJ_front by (simp add: numeral_eq_Suc worker_step_unfold set_wpc_def)
  then show ?thesis by (intro exI [of _ 3]) simp
next
  case (NJ_pop j)
  then obtain q where "queue s = j # q" using f by (cases "queue s") auto
  then have "map_option queue_mutex (run (replicate 2 (WStep w k)) s) = Some None"
    using w NJ_pop by (simp add: numeral_eq_Suc worker_step_unfold set_wpc_def)
  then show ?thesis by (intro exI [of _ 2]) simp
next
  case NJ_unlock_wait
  then have "map_option queue_mutex (run (replicate 1 (WStep w k)) s) = Some None"
    using w by (simp add: worker_step_unfold set_wpc_def)
  then show ?thesis by (intro exI [of _ 1]) simp
next
  case WP_size
  then have "map_option queue_mutex (run (replicate 2 (WStep w k)) s) = Some None"
    using w by (simp add: numeral_eq_Suc worker_step_unfold set_wpc_def)
  then show ?thesis by (intro exI [of _ 2]) simp
next
  case (WP_unlock n)
  then have "map_option queue_mutex (run (replicate 1 (WStep w k)) s) = Some None"
    using w by (simp add: worker_step_unfold set_wpc_def)
  then show ?thesis by (intro exI [of _ 1]) simp
next
  case NJ_bailout
  show ?thesis
  proof (cases "bailout s")
    case True
    then have "map_option queue_mutex (run (replicate 4 (WStep w k)) s) = Some None"
      using w NJ_bailout by (simp add: numeral_eq_Suc worker_step_unfold set_wpc_def)
    then show ?thesis by (intro exI [of _ 4]) simp
  next
    case False
    then obtain j q where "queue s = j # q" using f NJ_bailout by (cases "queue s") auto
    then have "map_option queue_mutex (run (replicate 4 (WStep w k)) s) = Some None"
      using w NJ_bailout False by (simp add: numeral_eq_Suc worker_step_unfold set_wpc_def)
    then show ?thesis by (intro exI [of _ 4]) simp
  qed
next
  case NJ_inject
  then have "map_option queue_mutex (run (replicate 3 (WStep w k)) s) = Some None"
    using w by (simp add: numeral_eq_Suc worker_step_unfold set_wpc_def)
  then show ?thesis by (intro exI [of _ 3]) simp
next
  case (NJ_inc j)
  then have "map_option queue_mutex (run (replicate 2 (WStep w k)) s) = Some None"
    using w by (simp add: numeral_eq_Suc worker_step_unfold set_wpc_def)
  then show ?thesis by (intro exI [of _ 2]) simp
next
  case (NJ_unlock_queue j)
  then have "map_option queue_mutex (run (replicate 1 (WStep w k)) s) = Some None"
    using w by (simp add: worker_step_unfold set_wpc_def)
  then show ?thesis by (intro exI [of _ 1]) simp
qed (use h f in auto)

text \<open>So does a client.\<close>

lemma client_releases:
  assumes c: "c < length (clients s)" and h: "holds_queue_c (clients s ! c)"
  shows "\<exists>k. \<exists>n \<le> 4. map_option queue_mutex (run (replicate n (CStep c k)) s) = Some None"
proof -
  obtain k where k: "k < length (threads s) \<and> threads s ! k = NJ_blocked \<or> NJ_blocked \<notin> set (threads s)"
    by (metis in_set_conv_nth)
  have n: "\<not> (k < length (threads s) \<and> threads s ! k = NJ_blocked) \<Longrightarrow> NJ_blocked \<notin> set (threads s)"
    using k by blast
  have "\<exists>n \<le> 4. map_option queue_mutex (run (replicate n (CStep c k)) s) = Some None"
  proof (cases "clients s ! c")
    case (AJ_emplace j)
    then have "map_option queue_mutex (run (replicate 4 (CStep c k)) s) = Some None"
      using c n by (auto simp: numeral_eq_Suc client_step_unfold set_cpc_def set_wpc_def
          notify_one_job_available_def)
    then show ?thesis by (intro exI [of _ 4]) simp
  next
    case AJ_inc
    then have "map_option queue_mutex (run (replicate 3 (CStep c k)) s) = Some None"
      using c n by (auto simp: numeral_eq_Suc client_step_unfold set_cpc_def set_wpc_def
          notify_one_job_available_def)
    then show ?thesis by (intro exI [of _ 3]) simp
  next
    case AJ_notify
    then have "map_option queue_mutex (run (replicate 2 (CStep c k)) s) = Some None"
      using c n by (auto simp: numeral_eq_Suc client_step_unfold set_cpc_def set_wpc_def
          notify_one_job_available_def)
    then show ?thesis by (intro exI [of _ 2]) simp
  next
    case AJ_unlock
    then have "map_option queue_mutex (run (replicate 1 (CStep c k)) s) = Some None"
      using c by (simp add: client_step_unfold set_cpc_def)
    then show ?thesis by (intro exI [of _ 1]) simp
  next
    case JR_size
    then have "map_option queue_mutex (run (replicate 2 (CStep c k)) s) = Some None"
      using c by (simp add: numeral_eq_Suc client_step_unfold set_cpc_def)
    then show ?thesis by (intro exI [of _ 2]) simp
  next
    case (JR_unlock m)
    then have "map_option queue_mutex (run (replicate 1 (CStep c k)) s) = Some None"
      using c by (simp add: client_step_unfold set_cpc_def)
    then show ?thesis by (intro exI [of _ 1]) simp
  qed (use h in auto)
  then show ?thesis by blast
qed

text \<open>Whoever owns \<open>queue_mutex\<close> releases it within four actions of its own, each of them
  enabled whatever the other threads do: nobody waits for the mutex for long.\<close>

lemma queue_mutex_released:
  assumes r: "reachable N M s" and o: "queue_mutex s = Some t"
  shows "\<exists>es. length es \<le> 4 \<and> (\<forall>e \<in> set es. actor e = t) \<and>
           map_option queue_mutex (run es s) = Some None"
proof (cases t)
  case (Worker w)
  have w: "w < length (threads s)"
    using reachable_owner_inv [OF r] o Worker by (simp add: owner_inv_def)
  have "owns holds_queue_w (threads s) Worker (queue_mutex s)"
    using reachable_mutex_inv [OF r] by (simp add: mutex_inv_def)
  then have h: "holds_queue_w (threads s ! w)" using w o Worker by (simp add: owns_def)
  have f: "fetch_ok (threads s ! w) (queue s) (bailout s)"
    using reachable_fetch_inv [OF r] w by (simp add: fetch_inv_def)
  from worker_releases [OF w h f, of 0] obtain n where
    "n \<le> 4" "map_option queue_mutex (run (replicate n (WStep w 0)) s) = Some None" by blast
  then show ?thesis using Worker by (intro exI [of _ "replicate n (WStep w 0)"]) simp
next
  case (Client c)
  have c: "c < length (clients s)"
    using reachable_owner_inv [OF r] o Client by (simp add: owner_inv_def)
  have "owns holds_queue_c (clients s) Client (queue_mutex s)"
    using reachable_mutex_inv [OF r] by (simp add: mutex_inv_def)
  then have h: "holds_queue_c (clients s ! c)" using c o Client by (simp add: owns_def)
  from client_releases [OF c h] obtain k n where
    "n \<le> 4" "map_option queue_mutex (run (replicate n (CStep c k)) s) = Some None" by blast
  then show ?thesis using Client by (intro exI [of _ "replicate n (CStep c k)"]) simp
qed

subsection \<open>After the shutdown\<close>

text \<open>Once the pool is finalized no job is taken off the queue or called any more.\<close>

lemma finalized_no_more_calls:
  assumes r: "reachable N M s" and f: "finished s" and st: "step e s = Some s'"
  shows "ran s' = ran s \<and> dequeued s' = dequeued s \<and> (\<exists>q. queue s' = queue s @ q)"
proof (cases e)
  case (Call c g)
  then show ?thesis using st by (auto simp: call_step_def set_cpc_def split: if_splits)
next
  case (CStep c k)
  then have "client_step c k s = Some s'" using st by simp
  then show ?thesis using client_step_frame(3,4) client_step_queue by blast
next
  case (WStep w k)
  then have ws: "worker_step w k s = Some s'" using st by simp
  then have w: "w < length (threads s)" by (rule worker_step_less)
  have "ThreadCount s = N" "length (threads s) = N"
    using reachable_size_inv [OF r] by (simp_all add: size_inv_def)
  then have "threads s ! w = T_exit"
    using reachable_join_inv [OF r] f w by (simp add: join_inv_def)
  then show ?thesis using ws w by (simp add: worker_step_unfold)
next
  case (WakeW w)
  then show ?thesis using st by (auto simp: spurious_worker_def set_wpc_def split: if_splits)
next
  case (WakeC c)
  then show ?thesis using st by (auto simp: spurious_client_def set_cpc_def split: if_splits)
qed

section \<open>The claims\<close>

subsection \<open>C1: what \<open>JobsRemaining\<close> returns\<close>

text \<open>
  Claim C1 says that \<open>pendingCount()\<close>, which is \<open>JobsRemaining\<close>, returns the Pending
  Counter \<open>jobs_left\<close>. It does not: it returns \<open>queue.size()\<close>. The run below submits one
  job, lets the only worker take it off the queue up to the call of the job, and then
  calls \<open>JobsRemaining\<close>: the call returns 0 while \<open>jobs_left\<close> is 1.
\<close>

theorem JobsRemaining_not_jobs_left:
  "run (AddJob_events 0 (Callable 1) 0 @ replicate 8 (WStep 0 0) @
        Call 0 CallJobsRemaining # replicate 3 (CStep 0 0)) (ThreadPool 1 1) =
   Some \<lparr>ThreadCount = 1, threads = [T_call (Callable 1)], joined = [False],
       queue = [], jobs_left = 1, bailout = False, finished = False,
       job_available_mutex = None, wait_mutex = None, queue_mutex = None,
       clients = [Ret 0], submitted = [Callable 1], dequeued = [Callable 1], ran = []\<rparr>"
  by (simp add: AddJob_events_def ThreadPool_def step_defs numeral_eq_Suc)

text \<open>
  Claim C1, amended. In every reachable state \<open>JobsRemaining\<close> is the length of the queue
  as an \<open>unsigned\<close>, the queue holds exactly the jobs submitted and not yet dequeued, and
  a complete call of \<open>JobsRemaining\<close> on a free \<open>queue_mutex\<close> returns that number and
  changes nothing else. The Pending Counter is another number: \<open>jobs_left\<close> is, modulo
  \<open>2^32\<close>, the length of the queue plus the number of workers that hold a fetched job and
  have not decremented yet, minus a submission that is appended and not yet counted.
\<close>

theorem JobsRemaining_is_queue_length:
  assumes "reachable N M s"
  shows "queue_size s = of_nat (length (queue s)) \<and>
         queue s = drop (length (dequeued s)) (submitted s) \<and>
         jobs_left s + of_nat (inflight s) = queue_size s + of_nat (executing s) \<and>
         (\<forall>c k. c < M \<and> outside (clients s ! c) \<and> queue_mutex s = None \<longrightarrow>
            run (Call c CallJobsRemaining # replicate 3 (CStep c k)) s =
              Some (set_cpc c (Ret (of_nat (length (queue s)))) s))"
proof -
  have 1: "queue s = drop (length (dequeued s)) (submitted s)"
    using reachable_fifo_inv [OF assms] by (simp add: fifo_inv_def)
  have 2: "jobs_left s + of_nat (inflight s) = queue_size s + of_nat (executing s)"
    using reachable_counter_inv [OF assms] by (simp add: counter_inv_def queue_size_def)
  have "length (clients s) = M" using reachable_size_inv [OF assms] by (simp add: size_inv_def)
  then have 3: "\<forall>c k. c < M \<and> outside (clients s ! c) \<and> queue_mutex s = None \<longrightarrow>
            run (Call c CallJobsRemaining # replicate 3 (CStep c k)) s =
              Some (set_cpc c (Ret (of_nat (length (queue s)))) s)"
    using JobsRemaining_run by blast
  show ?thesis using 1 2 3 by (simp add: queue_size_def)
qed

theorem JobsRemaining_is_queue_length_witness:
  "queue_size \<lparr>ThreadCount = 1, threads = [T_call (Callable 1)], joined = [False],
       queue = [], jobs_left = 1, bailout = False, finished = False,
       job_available_mutex = None, wait_mutex = None, queue_mutex = None,
       clients = [Idle], submitted = [Callable 1], dequeued = [Callable 1], ran = []\<rparr> = 0 \<and>
   run (Call 0 CallJobsRemaining # replicate 3 (CStep 0 0))
     \<lparr>ThreadCount = 1, threads = [T_call (Callable 1)], joined = [False],
       queue = [], jobs_left = 1, bailout = False, finished = False,
       job_available_mutex = None, wait_mutex = None, queue_mutex = None,
       clients = [Idle], submitted = [Callable 1], dequeued = [Callable 1], ran = []\<rparr> =
   Some \<lparr>ThreadCount = 1, threads = [T_call (Callable 1)], joined = [False],
       queue = [], jobs_left = 1, bailout = False, finished = False,
       job_available_mutex = None, wait_mutex = None, queue_mutex = None,
       clients = [Ret 0], submitted = [Callable 1], dequeued = [Callable 1], ran = []\<rparr>"
  using JobsRemaining_is_queue_length [OF busy_reachable]
  by (simp add: set_cpc_def)

subsection \<open>C2: shutdown without draining\<close>

text \<open>
  Claim C2 says that after \<open>JoinAll(false)\<close> has returned \<open>pendingCount()\<close> returns 0.
  The doc comment of \<open>JoinAll\<close> promises the same (\<^emph>\<open>The queue will be empty after this
  call\<close>), but no line of \<open>JoinAll\<close> empties the queue or resets the counter. The run:
  two jobs are submitted to a pool of one worker, the worker takes the first and is about
  to call it, \<open>JoinAll(false)\<close> raises the flag, the worker calls its job, decrements,
  sees the flag and exits, \<open>JoinAll\<close> joins it and finalizes; then \<open>JobsRemaining()\<close>
  returns 1, \<open>jobs_left\<close> is 1, and the second job is still in the queue and never ran
  (nor will it: \<open>finalized_no_more_calls\<close>).
\<close>

theorem drop_on_fast_shutdown:
  "run (AddJob_events 0 (Callable 1) 0 @ AddJob_events 0 (Callable 2) 0 @ replicate 8 (WStep 0 0) @
        Call 0 (CallJoinAll False) # replicate 4 (CStep 0 0) @ replicate 4 (WStep 0 0) @
        replicate 3 (CStep 0 0) @ Call 0 CallJobsRemaining # replicate 3 (CStep 0 0))
     (ThreadPool 1 1) =
   Some \<lparr>ThreadCount = 1, threads = [T_exit], joined = [True],
       queue = [Callable 2], jobs_left = 1, bailout = True, finished = True,
       job_available_mutex = None, wait_mutex = None, queue_mutex = None,
       clients = [Ret 1], submitted = [Callable 1, Callable 2], dequeued = [Callable 1],
       ran = [Callable 1]\<rparr>"
  by (simp add: AddJob_events_def ThreadPool_def step_defs numeral_eq_Suc)

subsection \<open>C3: the drain-first shutdown\<close>

text \<open>
  Claim C3 says that \<open>JoinAll(true)\<close> first blocks until the Pending Counter is 0, then
  raises the shutdown flag and broadcasts, then joins every worker thread, and finally
  marks the pool finalized. The doc comment of \<open>JoinAll\<close> says the same (\<^emph>\<open>Block until all
  threads have completed\<close>, \<^emph>\<open>the threads will be done\<close>). The code does not get there in
  this run of a pool of one worker to which no job is ever submitted. The worker enters
  \<open>next_job\<close>, finds the queue empty and evaluates the predicate of line 78 to false
  (nine actions); it has not called \<open>wait( job_lock )\<close> yet. The client calls
  \<open>JoinAll(true)\<close>: \<open>WaitAll\<close> returns at once on \<open>jobs_left\<close> 0, line 158 raises the
  flag, and the \<open>notify_all\<close> of line 159, which is issued without
  \<open>job_available_mutex\<close>, finds no thread blocked; the client goes on to \<open>x.join()\<close>
  (line 163). Now the worker blocks on \<open>job_available_var\<close>. In the state reached the
  flag is up, the worker is blocked, the client is inside \<open>join\<close>, \<open>finished\<close> is false,
  and no action of any thread is enabled: the one event that can still happen is a
  spurious wake-up of the worker, which the C++ standard permits and does not promise.
  The worker is not joined and the pool is not finalized.
\<close>

theorem JoinAll_hangs_at_join:
  "run (replicate 9 (WStep 0 0) @ Call 0 (CallJoinAll True) # replicate 5 (CStep 0 0) @
        [WStep 0 0]) (ThreadPool 1 1) =
   Some \<lparr>ThreadCount = 1, threads = [NJ_blocked], joined = [False],
       queue = [], jobs_left = 0, bailout = True, finished = False,
       job_available_mutex = None, wait_mutex = None, queue_mutex = None,
       clients = [JA_join 0], submitted = [], dequeued = [], ran = []\<rparr> \<and>
   (\<forall>e. (step e \<lparr>ThreadCount = 1, threads = [NJ_blocked], joined = [False],
       queue = [], jobs_left = 0, bailout = True, finished = False,
       job_available_mutex = None, wait_mutex = None, queue_mutex = None,
       clients = [JA_join 0], submitted = [], dequeued = [], ran = []\<rparr> \<noteq> None) = (e = WakeW 0))"
proof -
  define S where "S = \<lparr>ThreadCount = 1, threads = [NJ_blocked], joined = [False],
       queue = [], jobs_left = 0, bailout = True, finished = False,
       job_available_mutex = None, wait_mutex = None, queue_mutex = None,
       clients = [JA_join 0], submitted = [], dequeued = [], ran = []\<rparr>"
  have 0: "run (replicate 9 (WStep 0 0) @ Call 0 (CallJoinAll True) # replicate 5 (CStep 0 0) @
        [WStep 0 0]) (ThreadPool 1 1) = Some S"
    by (simp add: S_def ThreadPool_def step_defs numeral_eq_Suc)
  have 1: "step (Call c f) S = None" for c f
    by (cases c) (simp_all add: S_def step_defs)
  have 2: "step (CStep c k) S = None" for c k
    by (cases c) (simp_all add: S_def step_defs)
  have 3: "step (WStep w k) S = None" for w k
    by (cases w) (simp_all add: S_def step_defs)
  have 4: "step (WakeC c) S = None" for c
    by (cases c) (simp_all add: S_def step_defs)
  have 5: "(step (WakeW w) S \<noteq> None) = (w = 0)" for w
    by (cases w) (simp_all add: S_def step_defs)
  have "(step e S \<noteq> None) = (e = WakeW 0)" for e
    using 1 2 3 4 5 by (cases e) simp_all
  then show ?thesis using 0 unfolding S_def by blast
qed

text \<open>
  The drain itself can be skipped as well. The test of line 174 is \<open>jobs_left > 0\<close>: on a
  counter that has wrapped around to a negative value \<open>WaitAll\<close> returns at once. After
  \<open>2^31\<close> submissions that no worker has taken, \<open>JoinAll(true)\<close> raises the flag with
  \<open>jobs_left\<close> at \<open>2^31\<close> (read as \<open>-2^31\<close>) and every job still in the queue.
\<close>

lemma drain_skipped_after_overflow:
  "run (concat (replicate (2 ^ 31) (AddJob_events 0 (Callable 0) 0)) @
        [Call 0 (CallJoinAll True), CStep 0 0, CStep 0 0, CStep 0 0]) (ThreadPool 1 1) =
   Some \<lparr>ThreadCount = 1, threads = [T_while], joined = [False],
       queue = replicate (2 ^ 31) (Callable 0), jobs_left = 2147483648, bailout = True,
       finished = False, job_available_mutex = None, wait_mutex = None, queue_mutex = None,
       clients = [JA_notify], submitted = replicate (2 ^ 31) (Callable 0), dequeued = [], ran = []\<rparr>"
  by (simp only: run_append flooded_run option.case) (simp add: step_defs)

text \<open>
  What the code does keep, in every reachable state with fewer than \<open>2^31\<close> outstanding
  jobs: a drain-first \<open>JoinAll\<close> of client \<open>c\<close> takes its steps in this order, as far as
  it gets.
  \<^item> It first enters \<open>WaitAll\<close>, and goes on to line 158 only on reading the counter as
    0, at line 174 or in the predicate of line 176; otherwise it waits.
    Whenever the counter is 0, no worker holds a job, the queue holds at most a
    submission that is not counted yet, and every job submitted and counted has been
    called.
  \<^item> The flag is raised only by the action of line 158, which is followed by the
    broadcast of line 159, after which no worker is blocked on \<open>job_available_var\<close>.
    The flag is not up unless some \<open>JoinAll\<close> has passed line 158.
  \<^item> A \<open>JoinAll\<close> that has passed line 158 finds the flag up; in the loop of lines
    161-163 the threads before the current one are joined and have returned from
    \<open>Task\<close>.
  \<^item> \<open>finished\<close> is set only by the action of line 164, reached when every worker is
    joined; in a finalized pool the flag is up and every worker has exited.
\<close>

lemma JoinAll_order:
  assumes r: "reachable N M s" and c: "c < M" and b: "outstanding s < 2 ^ 31"
  shows "(\<forall>k s'. client_step c k s = Some s' \<longrightarrow>
            (clients s ! c = JA_finished True \<and> \<not> finished s \<longrightarrow> clients s' ! c = WA_check True) \<and>
            (clients s ! c = WA_check True \<longrightarrow>
               (if jobs_left s = 0 then clients s' ! c = JA_bailout else clients s' ! c = WA_lock True)) \<and>
            (clients s ! c = WA_pred True \<longrightarrow>
               (if jobs_left s = 0 then clients s' ! c = WA_unlock True
                else clients s' ! c = WA_wait True)) \<and>
            (clients s ! c = WA_unlock True \<longrightarrow> clients s' ! c = JA_bailout) \<and>
            (bailout s' \<and> \<not> bailout s \<longrightarrow> clients s ! c = JA_bailout \<and> clients s' ! c = JA_notify) \<and>
            (clients s ! c = JA_notify \<longrightarrow>
               clients s' ! c = JA_joinable 0 \<and> NJ_blocked \<notin> set (threads s')) \<and>
            (finished s' \<and> \<not> finished s \<longrightarrow> clients s ! c = JA_finish)) \<and>
         (jobs_left s = 0 \<longrightarrow>
            executing s = 0 \<and> length (queue s) = inflight s \<and>
            mset (take (length (submitted s) - inflight s) (submitted s)) \<subseteq># mset (ran s)) \<and>
         (past_raise (clients s ! c) \<longrightarrow> bailout s) \<and>
         (\<forall>i. clients s ! c = JA_joinable i \<or> clients s ! c = JA_join i \<longrightarrow>
            (\<forall>n < min i N. joined s ! n \<and> threads s ! n = T_exit)) \<and>
         (clients s ! c = JA_finish \<longrightarrow> (\<forall>n < N. joined s ! n \<and> threads s ! n = T_exit)) \<and>
         (finished s \<longrightarrow> bailout s \<and> (\<forall>n < N. joined s ! n \<and> threads s ! n = T_exit)) \<and>
         (bailout s \<longrightarrow> finished s \<or> list_ex past_raise (clients s))"
proof -
  have sz: "ThreadCount s = N" "length (clients s) = M"
    using reachable_size_inv [OF r] by (simp_all add: size_inv_def)
  have ji: "join_inv s" using r by (rule reachable_join_inv)
  have ok: "client_ok s (clients s ! c)" using ji c sz by (simp add: join_inv_def)
  have ex: "\<forall>n < N. joined s ! n \<longrightarrow> threads s ! n = T_exit"
    using ji sz by (simp add: join_inv_def)
  have "sint (jobs_left s) = int (outstanding s)"
    using counter_outstanding [OF reachable_counter_inv [OF r]] b by (simp add: sint_of_nat_small)
  moreover have "jobs_left s = 0 \<longleftrightarrow> sint (jobs_left s) = 0" by (simp add: signed_eq_0_iff)
  ultimately have z: "0 < sint (jobs_left s) \<longleftrightarrow> jobs_left s \<noteq> 0"
    by (cases "outstanding s = 0") simp_all
  have A: "\<forall>k s'. client_step c k s = Some s' \<longrightarrow>
            (clients s ! c = JA_finished True \<and> \<not> finished s \<longrightarrow> clients s' ! c = WA_check True) \<and>
            (clients s ! c = WA_check True \<longrightarrow>
               (if jobs_left s = 0 then clients s' ! c = JA_bailout else clients s' ! c = WA_lock True)) \<and>
            (clients s ! c = WA_pred True \<longrightarrow>
               (if jobs_left s = 0 then clients s' ! c = WA_unlock True
                else clients s' ! c = WA_wait True)) \<and>
            (clients s ! c = WA_unlock True \<longrightarrow> clients s' ! c = JA_bailout) \<and>
            (bailout s' \<and> \<not> bailout s \<longrightarrow> clients s ! c = JA_bailout \<and> clients s' ! c = JA_notify) \<and>
            (clients s ! c = JA_notify \<longrightarrow>
               clients s' ! c = JA_joinable 0 \<and> NJ_blocked \<notin> set (threads s')) \<and>
            (finished s' \<and> \<not> finished s \<longrightarrow> clients s ! c = JA_finish)"
  proof (intro allI impI)
    fix k s' assume st: "client_step c k s = Some s'"
    note fl = JoinAll_flow [OF st]
    have "clients s ! c = WA_check True \<longrightarrow>
               (if jobs_left s = 0 then clients s' ! c = JA_bailout else clients s' ! c = WA_lock True)"
      using fl(2) z by (simp split: if_splits)
    then show "(clients s ! c = JA_finished True \<and> \<not> finished s \<longrightarrow> clients s' ! c = WA_check True) \<and>
            (clients s ! c = WA_check True \<longrightarrow>
               (if jobs_left s = 0 then clients s' ! c = JA_bailout else clients s' ! c = WA_lock True)) \<and>
            (clients s ! c = WA_pred True \<longrightarrow>
               (if jobs_left s = 0 then clients s' ! c = WA_unlock True
                else clients s' ! c = WA_wait True)) \<and>
            (clients s ! c = WA_unlock True \<longrightarrow> clients s' ! c = JA_bailout) \<and>
            (bailout s' \<and> \<not> bailout s \<longrightarrow> clients s ! c = JA_bailout \<and> clients s' ! c = JA_notify) \<and>
            (clients s ! c = JA_notify \<longrightarrow>
               clients s' ! c = JA_joinable 0 \<and> NJ_blocked \<notin> set (threads s')) \<and>
            (finished s' \<and> \<not> finished s \<longrightarrow> clients s ! c = JA_finish)"
      using fl(1,3-7) by blast
  qed
  have B: "jobs_left s = 0 \<longrightarrow>
            executing s = 0 \<and> length (queue s) = inflight s \<and>
            mset (take (length (submitted s) - inflight s) (submitted s)) \<subseteq># mset (ran s)"
    using quiescent [OF r _ b] by blast
  have C: "past_raise (clients s ! c) \<longrightarrow> bailout s" using ok by (simp add: client_ok_def)
  have D: "\<forall>i. clients s ! c = JA_joinable i \<or> clients s ! c = JA_join i \<longrightarrow>
            (\<forall>n < min i N. joined s ! n \<and> threads s ! n = T_exit)"
    using ok ex sz by (auto simp: client_ok_def)
  have E: "clients s ! c = JA_finish \<longrightarrow> (\<forall>n < N. joined s ! n \<and> threads s ! n = T_exit)"
    using ok ex sz by (auto simp: client_ok_def)
  have F: "finished s \<longrightarrow> bailout s \<and> (\<forall>n < N. joined s ! n \<and> threads s ! n = T_exit)"
    using ji ex sz by (auto simp: join_inv_def)
  have G: "bailout s \<longrightarrow> finished s \<or> list_ex past_raise (clients s)"
    using ji by (simp add: join_inv_def)
  show ?thesis using A B C D E F G by blast
qed

text \<open>
  Whatever thread acts: a client comes to the end of the wait of line 176 only from the
  predicate, on reading \<open>jobs_left\<close> as 0, and comes to line 158 only from there, from the
  test of line 174 on reading 0, or on \<open>JoinAll(false)\<close>.
\<close>

lemma WaitAll_exit:
  assumes r: "reachable N M s" and b: "outstanding s < 2 ^ 31" and c: "c < M"
    and st: "step e s = Some s'" and n: "clients s' ! c \<noteq> clients s ! c"
  shows "(clients s' ! c = WA_unlock True \<longrightarrow> clients s ! c = WA_pred True \<and> jobs_left s = 0) \<and>
         (clients s' ! c = JA_bailout \<longrightarrow>
            clients s ! c = WA_unlock True \<or>
            clients s ! c = WA_check True \<and> jobs_left s = 0 \<or>
            clients s ! c = JA_finished False \<and> \<not> finished s)"
proof -
  have sz: "length (clients s) = M" using reachable_size_inv [OF r] by (simp add: size_inv_def)
  have "sint (jobs_left s) = int (outstanding s)"
    using counter_outstanding [OF reachable_counter_inv [OF r]] b by (simp add: sint_of_nat_small)
  moreover have "jobs_left s = 0 \<longleftrightarrow> sint (jobs_left s) = 0" by (simp add: signed_eq_0_iff)
  ultimately have z: "0 < sint (jobs_left s) \<longleftrightarrow> jobs_left s \<noteq> 0"
    by (cases "outstanding s = 0") simp_all
  have 1: "clients s ! c = WA_pred True \<and> jobs_left s = 0" if u: "clients s' ! c = WA_unlock True"
  proof -
    have "\<exists>k. e = CStep c k" using step_other_client [OF st _ _ n] u c sz by blast
    then obtain k where "e = CStep c k" by blast
    then have "client_step c k s = Some s'" using st by simp
    from WaitAll_entry(1) [OF this] u show ?thesis by blast
  qed
  have 2: "clients s ! c = WA_unlock True \<or>
            clients s ! c = WA_check True \<and> jobs_left s = 0 \<or>
            clients s ! c = JA_finished False \<and> \<not> finished s" if u: "clients s' ! c = JA_bailout"
  proof -
    have "\<exists>k. e = CStep c k" using step_other_client [OF st _ _ n] u c sz by blast
    then obtain k where "e = CStep c k" by blast
    then have "client_step c k s = Some s'" using st by simp
    from WaitAll_entry(2) [OF this] u z show ?thesis by blast
  qed
  show ?thesis using 1 2 by blast
qed

subsection \<open>C4: the injected no-op\<close>

text \<open>
  Claim C4. A worker blocked in the wait of line 78 that wakes up, finds the flag
  \<open>bailout\<close> set and the queue empty, and runs on its own (both mutexes are free):
  after eleven actions \<open>next_job\<close> has returned the no-op \<open>[]{}\<close> and \<open>jobs_left\<close> is one
  more than before; after the two actions that follow (the call of the no-op and the
  decrement of line 57) \<open>jobs_left\<close> is back at its value, nothing else has changed but
  the log of the calls, and the worker is at line 58.
\<close>

theorem bailout_injects_noop:
  assumes "w < length (threads s)" "threads s ! w = NJ_blocked" "bailout s" "queue s = []"
    and "job_available_mutex s = None" "queue_mutex s = None"
  shows "run (WakeW w # replicate 11 (WStep w k)) s =
           Some (s\<lparr>threads := (threads s)[w := T_call NoOp], jobs_left := jobs_left s + 1\<rparr>) \<and>
         run (WakeW w # replicate 13 (WStep w k)) s =
           Some (s\<lparr>threads := (threads s)[w := T_notify], ran := ran s @ [NoOp]\<rparr>)"
  using assms by (simp add: step_defs numeral_eq_Suc)

theorem bailout_injects_noop_witness:
  "run (WakeW 0 # replicate 11 (WStep 0 0))
     \<lparr>ThreadCount = 1, threads = [NJ_blocked], joined = [False],
       queue = [], jobs_left = 0, bailout = True, finished = False,
       job_available_mutex = None, wait_mutex = None, queue_mutex = None,
       clients = [JA_notify], submitted = [], dequeued = [], ran = []\<rparr> =
   Some \<lparr>ThreadCount = 1, threads = [T_call NoOp], joined = [False],
       queue = [], jobs_left = 1, bailout = True, finished = False,
       job_available_mutex = None, wait_mutex = None, queue_mutex = None,
       clients = [JA_notify], submitted = [], dequeued = [], ran = []\<rparr> \<and>
   run (WakeW 0 # replicate 13 (WStep 0 0))
     \<lparr>ThreadCount = 1, threads = [NJ_blocked], joined = [False],
       queue = [], jobs_left = 0, bailout = True, finished = False,
       job_available_mutex = None, wait_mutex = None, queue_mutex = None,
       clients = [JA_notify], submitted = [], dequeued = [], ran = []\<rparr> =
   Some \<lparr>ThreadCount = 1, threads = [T_notify], joined = [False],
       queue = [], jobs_left = 0, bailout = True, finished = False,
       job_available_mutex = None, wait_mutex = None, queue_mutex = None,
       clients = [JA_notify], submitted = [], dequeued = [], ran = [NoOp]\<rparr>"
  using bailout_injects_noop [of 0 "\<lparr>ThreadCount = 1, threads = [NJ_blocked], joined = [False],
       queue = [], jobs_left = 0, bailout = True, finished = False,
       job_available_mutex = None, wait_mutex = None, queue_mutex = None,
       clients = [JA_notify], submitted = [], dequeued = [], ran = []\<rparr>" 0]
  by simp

subsection \<open>C5: what \<open>AddJob\<close> does\<close>

text \<open>
  Claim C5. A complete call of \<open>AddJob(j)\<close> by a client \<open>c\<close> that finds \<open>queue_mutex\<close>
  free: every action of the call is enabled (the caller waits for nothing), the job is
  appended at the tail of the queue, \<open>jobs_left\<close> is incremented by exactly one, the
  worker picked by \<open>notify_one\<close> is unblocked when some worker is blocked, and nothing
  else in the pool has changed (the caller is back outside, and the job is logged).
  The acquisition of \<open>queue_mutex\<close> in line 134 is the only place where the caller can
  wait, and in every reachable state the owner of \<open>queue_mutex\<close> releases it within four
  actions of its own that nothing can disable: the queue is unbounded and the caller
  never waits for a worker or for room.
\<close>

theorem AddJob_effect:
  assumes "c < length (clients s)" "outside (clients s ! c)"
    and "k < length (threads s) \<and> threads s ! k = NJ_blocked \<or> NJ_blocked \<notin> set (threads s)"
  shows "(queue_mutex s = None \<longrightarrow>
          run (AddJob_events c j k) s =
            Some (s\<lparr>threads := (if NJ_blocked \<in> set (threads s) then (threads s)[k := NJ_woken]
                              else threads s),
                   queue := queue s @ [j], jobs_left := jobs_left s + 1,
                   clients := (clients s)[c := Idle], submitted := submitted s @ [j]\<rparr>)) \<and>
         (reachable N M s \<longrightarrow>
            (\<forall>t. queue_mutex s = Some t \<longrightarrow>
               (\<exists>es. length es \<le> 4 \<and> (\<forall>e \<in> set es. actor e = t) \<and>
                  map_option queue_mutex (run es s) = Some None)))"
proof (intro conjI impI allI)
  assume q: "queue_mutex s = None"
  show "run (AddJob_events c j k) s =
            Some (s\<lparr>threads := (if NJ_blocked \<in> set (threads s) then (threads s)[k := NJ_woken]
                              else threads s),
                   queue := queue s @ [j], jobs_left := jobs_left s + 1,
                   clients := (clients s)[c := Idle], submitted := submitted s @ [j]\<rparr>)"
  proof (cases "NJ_blocked \<in> set (threads s)")
    case True
    then have "notify_one_job_available k s = Some (set_wpc k NJ_woken s)"
      using assms(3) by (simp add: notify_one_job_available_def)
    from AddJob_run [OF assms(1,2) q this] show ?thesis using True by (simp add: set_wpc_def)
  next
    case False
    then have "\<not> (k < length (threads s) \<and> threads s ! k = NJ_blocked)" by (metis nth_mem)
    then have "notify_one_job_available k s = Some s"
      using False by (auto simp: notify_one_job_available_def)
    from AddJob_run [OF assms(1,2) q this] show ?thesis using False by simp
  qed
next
  fix t assume "reachable N M s" "queue_mutex s = Some t"
  then show "\<exists>es. length es \<le> 4 \<and> (\<forall>e \<in> set es. actor e = t) \<and>
                  map_option queue_mutex (run es s) = Some None"
    by (rule queue_mutex_released)
qed

lemma locking_run:
  "run (replicate 3 (WStep 0 0)) (ThreadPool 1 1) =
   Some \<lparr>ThreadCount = 1, threads = [NJ_empty], joined = [False],
       queue = [], jobs_left = 0, bailout = False, finished = False,
       job_available_mutex = Some (Worker 0), wait_mutex = None, queue_mutex = Some (Worker 0),
       clients = [Idle], submitted = [], dequeued = [], ran = []\<rparr>"
  by (simp add: ThreadPool_def step_defs numeral_eq_Suc)

theorem AddJob_effect_witness:
  "run (AddJob_events 0 (Callable 1) 0)
     \<lparr>ThreadCount = 1, threads = [NJ_blocked], joined = [False],
       queue = [], jobs_left = 0, bailout = False, finished = False,
       job_available_mutex = None, wait_mutex = None, queue_mutex = None,
       clients = [Idle], submitted = [], dequeued = [], ran = []\<rparr> =
   Some \<lparr>ThreadCount = 1, threads = [NJ_woken], joined = [False],
       queue = [Callable 1], jobs_left = 1, bailout = False, finished = False,
       job_available_mutex = None, wait_mutex = None, queue_mutex = None,
       clients = [Idle], submitted = [Callable 1], dequeued = [], ran = []\<rparr> \<and>
   (\<exists>es. length es \<le> 4 \<and> (\<forall>e \<in> set es. actor e = Worker 0) \<and>
      map_option queue_mutex (run es
        \<lparr>ThreadCount = 1, threads = [NJ_empty], joined = [False],
          queue = [], jobs_left = 0, bailout = False, finished = False,
          job_available_mutex = Some (Worker 0), wait_mutex = None, queue_mutex = Some (Worker 0),
          clients = [Idle], submitted = [], dequeued = [], ran = []\<rparr>) =
      Some None)"
proof -
  have 1: "run (AddJob_events 0 (Callable 1) 0)
     \<lparr>ThreadCount = 1, threads = [NJ_blocked], joined = [False],
       queue = [], jobs_left = 0, bailout = False, finished = False,
       job_available_mutex = None, wait_mutex = None, queue_mutex = None,
       clients = [Idle], submitted = [], dequeued = [], ran = []\<rparr> =
   Some \<lparr>ThreadCount = 1, threads = [NJ_woken], joined = [False],
       queue = [Callable 1], jobs_left = 1, bailout = False, finished = False,
       job_available_mutex = None, wait_mutex = None, queue_mutex = None,
       clients = [Idle], submitted = [Callable 1], dequeued = [], ran = []\<rparr>"
    using AddJob_effect [where c = 0 and k = 0 and j = "Callable 1" and s = "\<lparr>ThreadCount = 1,
       threads = [NJ_blocked], joined = [False],
       queue = [], jobs_left = 0, bailout = False, finished = False,
       job_available_mutex = None, wait_mutex = None, queue_mutex = None,
       clients = [Idle], submitted = [], dequeued = [], ran = []\<rparr>"]
    by simp
  have 2: "\<exists>es. length es \<le> 4 \<and> (\<forall>e \<in> set es. actor e = Worker 0) \<and>
      map_option queue_mutex (run es
        \<lparr>ThreadCount = 1, threads = [NJ_empty], joined = [False],
          queue = [], jobs_left = 0, bailout = False, finished = False,
          job_available_mutex = Some (Worker 0), wait_mutex = None, queue_mutex = Some (Worker 0),
          clients = [Idle], submitted = [], dequeued = [], ran = []\<rparr>) =
      Some None"
    using AddJob_effect [where c = 0 and k = 0 and N = 1 and M = 1 and s = "\<lparr>ThreadCount = 1,
          threads = [NJ_empty], joined = [False],
          queue = [], jobs_left = 0, bailout = False, finished = False,
          job_available_mutex = Some (Worker 0), wait_mutex = None, queue_mutex = Some (Worker 0),
          clients = [Idle], submitted = [], dequeued = [], ran = []\<rparr>"]
      reachable_run [OF reachable_init locking_run]
    by simp
  show ?thesis using 1 2 by blast
qed

subsection \<open>C6: the queue is first in, first out\<close>



subsection \<open>C7: \<open>JoinAll\<close> on a finalized pool\<close>

text \<open>
  Claim C7. On a finalized pool a call of \<open>JoinAll\<close>, with either argument, returns
  after the test of line 151 and leaves the pool as it is; every worker thread has
  exited and is joined already, so no thread is joined again; and a finalized pool
  stays finalized whatever any thread does, so the second of two calls of
  \<open>JoinAll(true)\<close> is such a call.
\<close>

theorem JoinAll_idempotent:
  assumes "reachable N M s" "finished s" "c < M" "outside (clients s ! c)"
  shows "run [Call c (CallJoinAll b), CStep c k] s = Some (set_cpc c Idle s) \<and>
         (\<forall>n < N. threads s ! n = T_exit \<and> joined s ! n) \<and>
         (\<forall>e s'. step e s = Some s' \<longrightarrow> finished s')"
proof -
  have sz: "ThreadCount s = N" "length (clients s) = M"
    using reachable_size_inv [OF assms(1)] by (simp_all add: size_inv_def)
  have "run [Call c (CallJoinAll b), CStep c k] s = Some (set_cpc c Idle s)"
    using assms(2-4) sz by (intro JoinAll_finished_run) simp_all
  moreover have "\<forall>n < N. threads s ! n = T_exit \<and> joined s ! n"
    using reachable_join_inv [OF assms(1)] assms(2) sz by (auto simp: join_inv_def)
  ultimately show ?thesis using step_finished assms(2) by blast
qed

theorem JoinAll_idempotent_witness:
  "run [Call 0 (CallJoinAll True), CStep 0 0]
     \<lparr>ThreadCount = 1, threads = [T_exit], joined = [True],
       queue = [], jobs_left = 0, bailout = True, finished = True,
       job_available_mutex = None, wait_mutex = None, queue_mutex = None,
       clients = [Idle], submitted = [], dequeued = [], ran = [NoOp]\<rparr> =
   Some \<lparr>ThreadCount = 1, threads = [T_exit], joined = [True],
       queue = [], jobs_left = 0, bailout = True, finished = True,
       job_available_mutex = None, wait_mutex = None, queue_mutex = None,
       clients = [Idle], submitted = [], dequeued = [], ran = [NoOp]\<rparr>"
  using JoinAll_idempotent [OF finalized_reachable, of 0 True 0]
  by (simp add: set_cpc_def)

subsection \<open>C8: the accounting of \<open>jobs_left\<close>\<close>

text \<open>
  Claim C8 says that the Pending Counter never goes negative in any reachable state.
  \<open>jobs_left\<close> is an \<open>atomic_int\<close>: after \<open>2^31\<close> submissions that no worker has taken
  yet, the increments of line 136 have wrapped it around to \<open>-2^31\<close>.
\<close>

theorem counter_overflow:
  "map_option (sint \<circ> jobs_left)
     (run (concat (replicate (2 ^ 31) (AddJob_events 0 (Callable 0) 0))) (ThreadPool 1 1)) =
   Some (- 2147483648)"
proof -
  have "run (concat (replicate (2 ^ 31) (AddJob_events 0 (Callable 0) 0))) (ThreadPool 1 1) =
    Some ((ThreadPool 1 1)\<lparr>queue := queue (ThreadPool 1 1) @ replicate (2 ^ 31) (Callable 0),
      jobs_left := jobs_left (ThreadPool 1 1) + of_nat (2 ^ 31),
      submitted := submitted (ThreadPool 1 1) @ replicate (2 ^ 31) (Callable 0)\<rparr>)"
    by (rule AddJob_repeat) (simp_all add: ThreadPool_def)
  then show ?thesis by (simp add: ThreadPool_def)
qed

text \<open>
  Claim C8, amended. In every reachable state with fewer than \<open>2^31\<close> outstanding jobs,
  \<open>jobs_left\<close> is exactly the number of outstanding jobs (queued, or fetched by a worker
  and not yet decremented for, less a submission that is not counted yet), so it is not
  negative; \<open>JobsRemaining\<close> is unsigned and never negative; and the only actions that
  change \<open>jobs_left\<close> are the one increment of a submission (line 136), the one
  increment for an injected no-op (line 87) and the one decrement after a job has run
  (line 57).
\<close>

theorem jobs_left_accounting:
  assumes "reachable N M s" "outstanding s < 2 ^ 31"
  shows "sint (jobs_left s) = int (outstanding s) \<and> 0 \<le> sint (jobs_left s) \<and>
         0 \<le> uint (queue_size s) \<and>
         (\<forall>e s'. step e s = Some s' \<longrightarrow>
            jobs_left s' = jobs_left s + of_bool (increments e s) - of_bool (decrements e s))"
proof -
  have "jobs_left s = of_nat (outstanding s)"
    using reachable_counter_inv [OF assms(1)] by (rule counter_outstanding)
  then have "sint (jobs_left s) = int (outstanding s)"
    using assms(2) by (simp add: sint_of_nat_small)
  then show ?thesis using step_jobs_left by simp
qed

theorem jobs_left_accounting_witness:
  "sint (1 :: 32 word) = 1 \<and>
   step (WStep 0 0) \<lparr>ThreadCount = 1, threads = [T_call (Callable 1)], joined = [False],
       queue = [], jobs_left = 1, bailout = False, finished = False,
       job_available_mutex = None, wait_mutex = None, queue_mutex = None,
       clients = [Idle], submitted = [Callable 1], dequeued = [Callable 1], ran = []\<rparr> =
   Some \<lparr>ThreadCount = 1, threads = [T_dec], joined = [False],
       queue = [], jobs_left = 1, bailout = False, finished = False,
       job_available_mutex = None, wait_mutex = None, queue_mutex = None,
       clients = [Idle], submitted = [Callable 1], dequeued = [Callable 1], ran = [Callable 1]\<rparr>"
proof -
  have "outstanding \<lparr>ThreadCount = 1, threads = [T_call (Callable 1)], joined = [False],
       queue = [], jobs_left = 1, bailout = False, finished = False,
       job_available_mutex = None, wait_mutex = None, queue_mutex = None,
       clients = [Idle], submitted = [Callable 1], dequeued = [Callable 1], ran = []\<rparr> = 1"
    by (simp add: outstanding_def executing_def inflight_def)
  then show ?thesis
    using jobs_left_accounting [OF busy_reachable]
    by (simp add: worker_step_unfold set_wpc_def)
qed

subsection \<open>C9: the number of workers is fixed\<close>

text \<open>
  Claim C9. In every state the pool can reach from its construction with \<open>N\<close> worker
  threads, after any sequence of actions of any threads, \<open>Size()\<close> returns \<open>N\<close>, and
  the pool still has exactly \<open>N\<close> worker threads: no operation changes the count.
\<close>

theorem Size_is_ThreadCount:
  "reachable N M s \<Longrightarrow> Size s = N \<and> length (threads s) = N"
  using reachable_size_inv [of N M s] by (simp add: size_inv_def Size_def)

theorem Size_is_ThreadCount_witness:
  "Size \<lparr>ThreadCount = 2, threads = [T_while, NJ_lock_avail], joined = [False, False],
       queue = [], jobs_left = 0, bailout = False, finished = False,
       job_available_mutex = None, wait_mutex = None, queue_mutex = Some (Client 0),
       clients = [AJ_emplace (Callable 7)], submitted = [], dequeued = [], ran = []\<rparr> = 2"
proof -
  have "run [Call 0 (CallAddJob (Callable 7)), CStep 0 0, WStep 1 0] (ThreadPool 2 1) =
    Some \<lparr>ThreadCount = 2, threads = [T_while, NJ_lock_avail], joined = [False, False],
       queue = [], jobs_left = 0, bailout = False, finished = False,
       job_available_mutex = None, wait_mutex = None, queue_mutex = Some (Client 0),
       clients = [AJ_emplace (Callable 7)], submitted = [], dequeued = [], ran = []\<rparr>"
    by (simp add: ThreadPool_def call_step_def client_step_unfold worker_step_unfold set_cpc_def
        set_wpc_def entry_def numeral_eq_Suc)
  from reachable_run [OF reachable_init this] show ?thesis
    using Size_is_ThreadCount by blast
qed

subsection \<open>C10: \<open>AddJob\<close> after the pool is finalized\<close>

text \<open>
  Claim C10. \<open>AddJob\<close> never reads \<open>finished\<close>: on a finalized pool a call appends the
  job, increments \<open>jobs_left\<close> by one and returns normally, and its result is the result
  of the same call on the same pool not yet finalized, but for the flag.
\<close>

theorem AddJob_after_finished:
  assumes "finished s" "c < length (clients s)" "outside (clients s ! c)" "queue_mutex s = None"
    and "k < length (threads s) \<and> threads s ! k = NJ_blocked \<or> NJ_blocked \<notin> set (threads s)"
  shows "run (AddJob_events c j k) s =
     Some (s\<lparr>threads := (if NJ_blocked \<in> set (threads s) then (threads s)[k := NJ_woken] else threads s),
            queue := queue s @ [j], jobs_left := jobs_left s + 1,
            clients := (clients s)[c := Idle], submitted := submitted s @ [j]\<rparr>) \<and>
     run (AddJob_events c j k) s =
       map_option (\<lambda>t. t\<lparr>finished := True\<rparr>) (run (AddJob_events c j k) (s\<lparr>finished := False\<rparr>))"
proof -
  have 1: "run (AddJob_events c j k) s =
     Some (s\<lparr>threads := (if NJ_blocked \<in> set (threads s) then (threads s)[k := NJ_woken] else threads s),
            queue := queue s @ [j], jobs_left := jobs_left s + 1,
            clients := (clients s)[c := Idle], submitted := submitted s @ [j]\<rparr>)"
  proof (cases "NJ_blocked \<in> set (threads s)")
    case True
    then have "notify_one_job_available k s = Some (set_wpc k NJ_woken s)"
      using assms(5) by (simp add: notify_one_job_available_def)
    from AddJob_run [OF assms(2-4) this] show ?thesis using True by (simp add: set_wpc_def)
  next
    case False
    then have "\<not> (k < length (threads s) \<and> threads s ! k = NJ_blocked)" by (metis nth_mem)
    then have "notify_one_job_available k s = Some s"
      using False by (auto simp: notify_one_job_available_def)
    from AddJob_run [OF assms(2-4) this] show ?thesis using False by simp
  qed
  have "s\<lparr>finished := False\<rparr>\<lparr>finished := True\<rparr> = s" using assms(1) by simp
  then have 2: "run (AddJob_events c j k) s =
       map_option (\<lambda>t. t\<lparr>finished := True\<rparr>) (run (AddJob_events c j k) (s\<lparr>finished := False\<rparr>))"
    using AddJob_finished_indep [where s = "s\<lparr>finished := False\<rparr>" and b = True] by simp
  show ?thesis using 1 2 by blast
qed

theorem AddJob_after_finished_witness:
  "run (AddJob_events 0 (Callable 5) 0)
     \<lparr>ThreadCount = 1, threads = [T_exit], joined = [True],
       queue = [], jobs_left = 0, bailout = True, finished = True,
       job_available_mutex = None, wait_mutex = None, queue_mutex = None,
       clients = [Idle], submitted = [], dequeued = [], ran = [NoOp]\<rparr> =
   Some \<lparr>ThreadCount = 1, threads = [T_exit], joined = [True],
       queue = [Callable 5], jobs_left = 1, bailout = True, finished = True,
       job_available_mutex = None, wait_mutex = None, queue_mutex = None,
       clients = [Idle], submitted = [Callable 5], dequeued = [], ran = [NoOp]\<rparr>"
  using AddJob_after_finished [of "\<lparr>ThreadCount = 1, threads = [T_exit], joined = [True],
       queue = [], jobs_left = 0, bailout = True, finished = True,
       job_available_mutex = None, wait_mutex = None, queue_mutex = None,
       clients = [Idle], submitted = [], dequeued = [], ran = [NoOp]\<rparr>" 0 0 "Callable 5"]
  by simp


end
